theory Spec2Isabelle
  imports Main "HOL-Library.Word" "HOL-Library.Multiset"
begin

section \<open>Values of the Go runtime used by the package\<close>

text \<open>
  A \<^verbatim>\<open>*big.Int\<close> is an \<open>int option\<close>: \<open>None\<close> is the nil pointer. A \<^verbatim>\<open>uint64\<close> is a
  \<open>64 word\<close>, so that arithmetic wraps as in Go. A slice is a list; the nil slice and the
  empty slice are both \<open>[]\<close> (\<^verbatim>\<open>len\<close>, \<^verbatim>\<open>range\<close> and indexing do not tell them apart, and
  the only nil test on a slice in the package guards a loop that an empty slice skips as
  well). A \<^verbatim>\<open>common.Address\<close> and a \<^verbatim>\<open>common.Hash\<close> are byte arrays, kept as byte lists.
  A run-time panic is a value of type \<open>panic\<close>, and every function that can panic
  returns \<open>panic + 'a\<close>.
\<close>

type_synonym uint64 = "64 word"
type_synonym byte = "8 word"
type_synonym Address = "byte list"
type_synonym Hash = "byte list"
type_synonym bigInt = "int option"

datatype panic = NilPointerDereference

text \<open>
  The method \<^verbatim>\<open>Cmp\<close> of \<^verbatim>\<open>*big.Int\<close> in Go's \<^verbatim>\<open>math/big\<close>: it first tests the two pointers for
  equality (and then returns 0 without reading either), otherwise it reads the sign of
  both operands, which panics on a nil pointer. Two non-nil operands compare as integers,
  with result -1, 0 or +1.
\<close>

definition big_Cmp :: "bigInt \<Rightarrow> bigInt \<Rightarrow> panic + int" where
  "big_Cmp x y =
     (case (x, y) of
        (None, None) \<Rightarrow> Inr 0
      | (None, Some b) \<Rightarrow> Inl NilPointerDereference
      | (Some a, None) \<Rightarrow> Inl NilPointerDereference
      | (Some a, Some b) \<Rightarrow> Inr (if a < b then - 1 else if a = b then 0 else 1))"

section \<open>params.Transition and istanbul.Config\<close>

text \<open>The constants \<^verbatim>\<open>params.ContractMode\<close> and \<^verbatim>\<open>params.BlockHeaderMode\<close>.\<close>

definition ContractMode :: string where
  "ContractMode = ''contract''"

definition BlockHeaderMode :: string where
  "BlockHeaderMode = ''blockheader''"

text \<open>
  \<^verbatim>\<open>params.Transition\<close>, field by field. A pointer field is an option; \<^verbatim>\<open>BlockReward\<close> points
  to a \<^verbatim>\<open>math.HexOrDecimal256\<close>, which is a \<^verbatim>\<open>big.Int\<close>.
\<close>

record Transition =
  Block :: bigInt
  EpochLength :: uint64
  BlockPeriodSeconds :: uint64
  EmptyBlockPeriodSeconds :: "uint64 option"
  RequestTimeoutSeconds :: uint64
  ContractSizeLimit :: uint64
  Validators :: "Address list"
  ValidatorSelectionMode :: string
  EnhancedPermissioningEnabled :: "bool option"
  PrivacyEnhancementsEnabled :: "bool option"
  PrivacyPrecompileEnabled :: "bool option"
  GasPriceEnabled :: "bool option"
  MinerGasLimit :: uint64
  TwoFPlusOneEnabled :: "bool option"
  TransactionSizeLimit :: uint64
  BlockReward :: "int option"
  BeneficiaryMode :: "string option"
  MiningBeneficiary :: "Address option"
  MaxRequestTimeoutSeconds :: "uint64 option"

text \<open>
  \<^verbatim>\<open>istanbul.Config\<close>. The proposer policy is held by pointer and the contract caller is an
  interface value; neither is read by the resolver, and both are kept as references
  (\<open>None\<close> is nil).
\<close>

record Config =
  RequestTimeout :: uint64
  BlockPeriod :: uint64
  EmptyBlockPeriod :: uint64
  ProposerPolicy :: "nat option"
  Epoch :: uint64
  Ceil2Nby3Block :: bigInt
  AllowedFutureBlockTime :: uint64
  BeneficiaryMode :: "string option"
  BlockReward :: "int option"
  MiningBeneficiary :: "Address option"
  Validators :: "Address list"
  ValidatorSelectionMode :: "string option"
  Client :: "nat option"
  MaxRequestTimeoutSeconds :: uint64
  Transitions :: "Transition list"

subsection \<open>getTransitionValue\<close>

text \<open>
  The loop of \<^verbatim>\<open>getTransitionValue\<close>: it walks the transitions from the first one and
  stops at the first whose \<^verbatim>\<open>Block.Cmp(num)\<close> is positive. The callback of the source writes
  to variables of the enclosing function; here it is a function on the value \<open>acc\<close> of
  those variables. \<^verbatim>\<open>Block.Cmp\<close> panics on a nil \<^verbatim>\<open>Block\<close> (\<open>num\<close> is not nil inside the loop).
\<close>

fun transitions_loop ::
  "Transition list \<Rightarrow> bigInt \<Rightarrow> (Transition \<Rightarrow> 'a \<Rightarrow> 'a) \<Rightarrow> 'a \<Rightarrow> panic + 'a" where
  "transitions_loop [] num callback acc = Inr acc"
| "transitions_loop (t # ts) num callback acc =
     (case big_Cmp (Block t) num of
        Inl e \<Rightarrow> Inl e
      | Inr r \<Rightarrow> if r \<le> 0 then transitions_loop ts num callback (callback t acc) else Inr acc)"

text \<open>
  \<^verbatim>\<open>getTransitionValue\<close> itself. Its callers pass the address of a \<^verbatim>\<open>Config\<close> value, so the
  receiver is never nil; the guard that is left is the one on \<open>num\<close> (and the one on the
  transition slice, which the empty list covers).
\<close>

definition getTransitionValue ::
  "Config \<Rightarrow> bigInt \<Rightarrow> (Transition \<Rightarrow> 'a \<Rightarrow> 'a) \<Rightarrow> 'a \<Rightarrow> panic + 'a" where
  "getTransitionValue c num callback acc =
     (if num \<noteq> None \<and> Transitions c \<noteq> []
      then transitions_loop (Transitions c) num callback acc
      else Inr acc)"

subsection \<open>GetConfig\<close>

text \<open>The callback of \<^verbatim>\<open>GetConfig\<close>: ten guarded assignments to \<^verbatim>\<open>newConfig\<close>, in source order.\<close>

definition GetConfig_callback :: "Transition \<Rightarrow> Config \<Rightarrow> Config" where
  "GetConfig_callback transition newConfig =
     (let n1 = (if RequestTimeoutSeconds transition \<noteq> 0
                then newConfig\<lparr>RequestTimeout := RequestTimeoutSeconds transition * 1000\<rparr>
                else newConfig);
          n2 = (if EpochLength transition \<noteq> 0
                then n1\<lparr>Epoch := EpochLength transition\<rparr> else n1);
          n3 = (if BlockPeriodSeconds transition \<noteq> 0
                then n2\<lparr>BlockPeriod := BlockPeriodSeconds transition\<rparr> else n2);
          n4 = (case EmptyBlockPeriodSeconds transition of
                  Some v \<Rightarrow> n3\<lparr>EmptyBlockPeriod := v\<rparr> | None \<Rightarrow> n3);
          n5 = (if Transition.BeneficiaryMode transition \<noteq> None
                then n4\<lparr>Config.BeneficiaryMode := Transition.BeneficiaryMode transition\<rparr>
                else n4);
          n6 = (if Transition.BlockReward transition \<noteq> None
                then n5\<lparr>Config.BlockReward := Transition.BlockReward transition\<rparr>
                else n5);
          n7 = (if Transition.MiningBeneficiary transition \<noteq> None
                then n6\<lparr>Config.MiningBeneficiary := Transition.MiningBeneficiary transition\<rparr>
                else n6);
          n8 = (if Transition.ValidatorSelectionMode transition \<noteq> ''''
                then n7\<lparr>Config.ValidatorSelectionMode :=
                          Some (Transition.ValidatorSelectionMode transition)\<rparr>
                else n7);
          n9 = (if length (Transition.Validators transition) > 0
                then n8\<lparr>Config.Validators := Transition.Validators transition\<rparr>
                else n8)
      in (case Transition.MaxRequestTimeoutSeconds transition of
            Some v \<Rightarrow> n9\<lparr>Config.MaxRequestTimeoutSeconds := v\<rparr> | None \<Rightarrow> n9))"

definition GetConfig :: "Config \<Rightarrow> bigInt \<Rightarrow> panic + Config" where
  "GetConfig c blockNumber = getTransitionValue c blockNumber GetConfig_callback c"

subsection \<open>GetValidatorSelectionMode, GetValidatorsAt, Get2FPlus1Enabled\<close>

definition GetValidatorSelectionMode :: "Config \<Rightarrow> bigInt \<Rightarrow> panic + string" where
  "GetValidatorSelectionMode c blockNumber =
     (let mode = (case Config.ValidatorSelectionMode c of
                    Some m \<Rightarrow> m | None \<Rightarrow> BlockHeaderMode)
      in getTransitionValue c blockNumber
           (\<lambda>transition mode.
              if Transition.ValidatorSelectionMode transition \<noteq> ''''
              then Transition.ValidatorSelectionMode transition else mode)
           mode)"

text \<open>
  \<^verbatim>\<open>GetValidatorsAt\<close>. The first condition calls \<^verbatim>\<open>blockNumber.Cmp\<close> before anything tests
  \<^verbatim>\<open>blockNumber\<close> for nil. The body of the \<^verbatim>\<open>for\<close> loop is a \<^verbatim>\<open>return\<close>, so the loop
  evaluates its condition once, at index 0, and either returns the validators of the first
  transition or falls through to the empty slice.
\<close>

definition GetValidatorsAt :: "Config \<Rightarrow> bigInt \<Rightarrow> panic + Address list" where
  "GetValidatorsAt c blockNumber =
     (case big_Cmp blockNumber (Some 0) of
        Inl e \<Rightarrow> Inl e
      | Inr r0 \<Rightarrow>
          if r0 = 0 \<and> length (Config.Validators c) > 0 then Inr (Config.Validators c)
          else if blockNumber \<noteq> None \<and> Transitions c \<noteq> [] then
            (case Transitions c of
               [] \<Rightarrow> Inr []
             | t # ts \<Rightarrow>
                 (case big_Cmp (Block t) blockNumber of
                    Inl e \<Rightarrow> Inl e
                  | Inr r \<Rightarrow> if r = 0 then Inr (Transition.Validators t) else Inr []))
          else Inr [])"

definition Get2FPlus1Enabled :: "Config \<Rightarrow> bigInt \<Rightarrow> panic + bool" where
  "Get2FPlus1Enabled c blockNumber =
     getTransitionValue c blockNumber
       (\<lambda>transition twoFPlusOneEnabled.
          case TwoFPlusOneEnabled transition of Some b \<Rightarrow> b | None \<Rightarrow> twoFPlusOneEnabled)
       False"

section \<open>View and its ordering\<close>

text \<open>
  \<^verbatim>\<open>View\<close> of \<^verbatim>\<open>types.go\<close>: a round and a sequence number, both \<^verbatim>\<open>*big.Int\<close>.
\<close>

record View =
  Round :: bigInt
  Sequence :: bigInt

text \<open>
  \<^verbatim>\<open>View.Cmp\<close>: the sequences are compared first and decide unless they are equal, then
  the rounds. The source calls \<^verbatim>\<open>big.Int.Cmp\<close> once for the test and once more for the
  returned value; both calls have the same operands and the same result.
\<close>

definition View_Cmp :: "View \<Rightarrow> View \<Rightarrow> panic + int" where
  "View_Cmp v y =
     (case big_Cmp (Sequence v) (Sequence y) of
        Inl e \<Rightarrow> Inl e
      | Inr s \<Rightarrow>
          if s \<noteq> 0 then Inr s
          else (case big_Cmp (Round v) (Round y) of
                  Inl e \<Rightarrow> Inl e
                | Inr r \<Rightarrow> if r \<noteq> 0 then Inr r else Inr 0))"

section \<open>Zero values and example configurations\<close>

text \<open>
  The zero values of the two structs, as a Go composite literal that names no field has
  them; the configurations of the examples are written as updates of these, the way a
  composite literal names only some fields.
\<close>

definition Transition_zero :: Transition where
  "Transition_zero =
     \<lparr>Block = None, EpochLength = 0, BlockPeriodSeconds = 0, EmptyBlockPeriodSeconds = None,
      RequestTimeoutSeconds = 0, ContractSizeLimit = 0, Validators = [],
      ValidatorSelectionMode = '''', EnhancedPermissioningEnabled = None,
      PrivacyEnhancementsEnabled = None, PrivacyPrecompileEnabled = None,
      GasPriceEnabled = None, MinerGasLimit = 0, TwoFPlusOneEnabled = None,
      TransactionSizeLimit = 0, BlockReward = None, BeneficiaryMode = None,
      MiningBeneficiary = None, MaxRequestTimeoutSeconds = None\<rparr>"

definition Config_zero :: Config where
  "Config_zero =
     \<lparr>RequestTimeout = 0, BlockPeriod = 0, EmptyBlockPeriod = 0, ProposerPolicy = None,
      Epoch = 0, Ceil2Nby3Block = None, AllowedFutureBlockTime = 0, BeneficiaryMode = None,
      BlockReward = None, MiningBeneficiary = None, Validators = [],
      ValidatorSelectionMode = None, Client = None, MaxRequestTimeoutSeconds = 0,
      Transitions = []\<rparr>"

text \<open>
  A configuration with three transitions, at heights 10, 20 and 30, and one validator in
  its base list.
\<close>

definition example_config :: Config where
  "example_config =
     Config_zero\<lparr>RequestTimeout := 10000, Epoch := 30000, Config.Validators := [[1]],
       Transitions :=
         [Transition_zero\<lparr>Block := Some 10, EpochLength := 7, Transition.Validators := [[2]],
            TwoFPlusOneEnabled := Some True\<rparr>,
          Transition_zero\<lparr>Block := Some 20, RequestTimeoutSeconds := 3,
            EmptyBlockPeriodSeconds := Some 0, Transition.Validators := [[3]],
            Transition.ValidatorSelectionMode := ''contract'',
            TwoFPlusOneEnabled := Some False\<rparr>,
          Transition_zero\<lparr>Block := Some 30, EpochLength := 9\<rparr>]\<rparr>"

text \<open>
  The scenario of the specification for the request timeout: a base configuration with
  \<^verbatim>\<open>RequestTimeout: 10000\<close> and \<^verbatim>\<open>Epoch: 30000\<close> and the single transition
  \<^verbatim>\<open>{Block: 100, RequestTimeoutSeconds: 5}\<close>.
\<close>

definition scenario_config :: Config where
  "scenario_config =
     Config_zero\<lparr>RequestTimeout := 10000, Epoch := 30000,
       Transitions := [Transition_zero\<lparr>Block := Some 100, RequestTimeoutSeconds := 5\<rparr>]\<rparr>"

text \<open>
  A configuration with no base validators and a single transition at height 0 that names
  one validator.
\<close>

definition counterexample_config :: Config where
  "counterexample_config =
     Config_zero\<lparr>Transitions :=
       [Transition_zero\<lparr>Block := Some 0, Transition.Validators := [[1]]\<rparr>]\<rparr>"

text \<open>
  The scenario of the specification for \<^verbatim>\<open>GetValidatorsAt\<close>: transitions
  \<^verbatim>\<open>[{Block: 10, Validators: [A]}, {Block: 20, Validators: [B]}]\<close>.
\<close>

definition two_transition_config :: "Address \<Rightarrow> Address \<Rightarrow> Config" where
  "two_transition_config A B =
     Config_zero\<lparr>Transitions :=
       [Transition_zero\<lparr>Block := Some 10, Transition.Validators := [A]\<rparr>,
        Transition_zero\<lparr>Block := Some 20, Transition.Validators := [B]\<rparr>]\<rparr>"

section \<open>The specification's reading of the resolver\<close>

text \<open>
  The resolver assumes a transition list whose heights are present and ascending.
\<close>

definition well_formed_transitions :: "Transition list \<Rightarrow> bool" where
  "well_formed_transitions ts =
     (list_all (\<lambda>t. Block t \<noteq> None) ts \<and> sorted (map (\<lambda>t. the (Block t)) ts))"

text \<open>The transitions whose height is at most \<open>h\<close>, in list order.\<close>

definition applicable :: "int \<Rightarrow> Transition list \<Rightarrow> Transition list" where
  "applicable h ts = filter (\<lambda>t. the (Block t) \<le> h) ts"

text \<open>
  The value a field takes after a list of sparse overrides: the value \<open>val\<close> of the last
  record in which the field is present, and the base value when no record has it.
\<close>

definition latest_override ::
  "(Transition \<Rightarrow> bool) \<Rightarrow> (Transition \<Rightarrow> 'a) \<Rightarrow> 'a \<Rightarrow> Transition list \<Rightarrow> 'a" where
  "latest_override present val base ts =
     (case filter present ts of [] \<Rightarrow> base | u # us \<Rightarrow> val (last (u # us)))"

text \<open>
  One step of the fold as the specification words it: every field of the result is the
  transition's value when the transition has the field (non-zero, non-nil or non-empty),
  and the value folded so far otherwise; the request timeout is converted from seconds to
  milliseconds. The fields a transition cannot name are those of the value folded so far.
\<close>

definition overlay :: "Transition \<Rightarrow> Config \<Rightarrow> Config" where
  "overlay t c =
     c\<lparr>RequestTimeout :=
         (if RequestTimeoutSeconds t \<noteq> 0 then RequestTimeoutSeconds t * 1000 else RequestTimeout c),
       Epoch := (if EpochLength t \<noteq> 0 then EpochLength t else Epoch c),
       BlockPeriod := (if BlockPeriodSeconds t \<noteq> 0 then BlockPeriodSeconds t else BlockPeriod c),
       EmptyBlockPeriod :=
         (case EmptyBlockPeriodSeconds t of Some v \<Rightarrow> v | None \<Rightarrow> EmptyBlockPeriod c),
       Config.BeneficiaryMode :=
         (if Transition.BeneficiaryMode t \<noteq> None then Transition.BeneficiaryMode t
          else Config.BeneficiaryMode c),
       Config.BlockReward :=
         (if Transition.BlockReward t \<noteq> None then Transition.BlockReward t
          else Config.BlockReward c),
       Config.MiningBeneficiary :=
         (if Transition.MiningBeneficiary t \<noteq> None then Transition.MiningBeneficiary t
          else Config.MiningBeneficiary c),
       Config.ValidatorSelectionMode :=
         (if Transition.ValidatorSelectionMode t \<noteq> ''''
          then Some (Transition.ValidatorSelectionMode t) else Config.ValidatorSelectionMode c),
       Config.Validators :=
         (if Transition.Validators t \<noteq> [] then Transition.Validators t
          else Config.Validators c),
       Config.MaxRequestTimeoutSeconds :=
         (case Transition.MaxRequestTimeoutSeconds t of
            Some v \<Rightarrow> v | None \<Rightarrow> Config.MaxRequestTimeoutSeconds c)\<rparr>"

text \<open>
  The fold of the specification: start from the base configuration and apply every
  transition of height at most \<open>h\<close>, in list order.
\<close>

definition resolve_fold :: "Config \<Rightarrow> int \<Rightarrow> Config" where
  "resolve_fold c h = foldl (\<lambda>acc t. overlay t acc) c (applicable h (Transitions c))"

text \<open>The request timeout of a resolved configuration, when the resolver returned one.\<close>

definition request_timeout_of :: "panic + Config \<Rightarrow> panic + uint64" where
  "request_timeout_of r = map_sum (\<lambda>e. e) RequestTimeout r"

text \<open>
  \<^verbatim>\<open>GetValidatorsAt\<close> as the specification words it: the base list at height 0 when it is
  not empty, for a height above 0 the validators of the first transition when its height
  is the requested one, and the empty list in every other case.
\<close>

definition GetValidatorsAt_claimed :: "Config \<Rightarrow> int \<Rightarrow> Address list" where
  "GetValidatorsAt_claimed c h =
     (if h = 0 \<and> Config.Validators c \<noteq> [] then Config.Validators c
      else if h > 0 \<and> (case Transitions c of [] \<Rightarrow> False | t # ts \<Rightarrow> Block t = Some h)
      then Transition.Validators (hd (Transitions c))
      else [])"

text \<open>
  The rule the source applies whenever it does not return the base list: only the first
  transition is looked at, and it counts only when its height is the requested one.
\<close>

definition first_transition_rule :: "Config \<Rightarrow> int \<Rightarrow> Address list" where
  "first_transition_rule c h =
     (case Transitions c of
        [] \<Rightarrow> []
      | t # ts \<Rightarrow> if Block t = Some h then Transition.Validators t else [])"

text \<open>
  The order on views: a view stands for the pair of its sequence and its round, and pairs
  are compared lexicographically.
\<close>

definition view_key :: "View \<Rightarrow> int \<times> int" where
  "view_key v = (the (Sequence v), the (Round v))"

definition lex_less :: "int \<times> int \<Rightarrow> int \<times> int \<Rightarrow> bool" where
  "lex_less a b = (fst a < fst b \<or> (fst a = fst b \<and> snd a < snd b))"

definition non_nil_view :: "View \<Rightarrow> bool" where
  "non_nil_view v = (Round v \<noteq> None \<and> Sequence v \<noteq> None)"

section \<open>Sorting validators\<close>

text \<open>
  \<^verbatim>\<open>validatorSorter\<close> of \<^verbatim>\<open>types.go\<close> with its three methods, which make it a
  \<^verbatim>\<open>sort.Interface\<close>. The field \<^verbatim>\<open>by\<close> is \<open>by_func\<close> here. A \<^verbatim>\<open>Validator\<close> is an interface
  value; the sorter only passes validators to the comparison function, so they are values
  of a type parameter. \<^verbatim>\<open>Swap\<close> and \<^verbatim>\<open>Less\<close> are only called with indices below \<^verbatim>\<open>Len\<close>.
\<close>

record 'v validatorSorter =
  validators :: "'v list"
  by_func :: "'v \<Rightarrow> 'v \<Rightarrow> bool"

definition Len :: "'v validatorSorter \<Rightarrow> nat" where
  "Len vs = length (validators vs)"

definition Swap :: "'v validatorSorter \<Rightarrow> nat \<Rightarrow> nat \<Rightarrow> 'v validatorSorter" where
  "Swap vs i j =
     vs\<lparr>validators := (validators vs)[i := validators vs ! j, j := validators vs ! i]\<rparr>"

definition Less :: "'v validatorSorter \<Rightarrow> nat \<Rightarrow> nat \<Rightarrow> bool" where
  "Less vs i j = by_func vs (validators vs ! i) (validators vs ! j)"

text \<open>
  \<^verbatim>\<open>sort.Sort\<close> of the Go library drives the three methods. It is modelled by the insertion
  sort the library runs on short slices (for \<open>i\<close> from 1 to \<^verbatim>\<open>Len\<close>, swap the element at \<open>i\<close>
  downwards while it is \<^verbatim>\<open>Less\<close> than its left neighbour); on longer slices the library
  picks other strategies with the same contract, and the properties below use the
  contract only: the result is a permutation in which no element is less than one
  before it, provided the comparison is a strict weak order.
\<close>

fun insertion_inner :: "'v validatorSorter \<Rightarrow> nat \<Rightarrow> 'v validatorSorter" where
  "insertion_inner data j =
     (if j > 0 \<and> Less data j (j - 1) then insertion_inner (Swap data j (j - 1)) (j - 1)
      else data)"

function insertion_outer :: "'v validatorSorter \<Rightarrow> nat \<Rightarrow> nat \<Rightarrow> 'v validatorSorter" where
  "insertion_outer data i n =
     (if i < n then insertion_outer (insertion_inner data i) (i + 1) n else data)"
  by pat_completeness auto
termination
  by (relation "measure (\<lambda>(data, i, n). n - i)") auto

definition sort_Sort :: "'v validatorSorter \<Rightarrow> 'v validatorSorter" where
  "sort_Sort data = insertion_outer data 1 (Len data)"

text \<open>\<^verbatim>\<open>ValidatorSortByFunc.Sort\<close>: wrap the slice and the function, and sort.\<close>

definition By_Sort :: "('v \<Rightarrow> 'v \<Rightarrow> bool) \<Rightarrow> 'v list \<Rightarrow> 'v list" where
  "By_Sort by vals = validators (sort_Sort \<lparr>validators = vals, by_func = by\<rparr>)"

text \<open>
  The requirement of \<^verbatim>\<open>sort.Interface\<close> on \<^verbatim>\<open>Less\<close> (a transitive ordering whose
  incomparability is transitive too), and what a sorted slice is for it.
\<close>

definition strict_weak_order :: "('v \<Rightarrow> 'v \<Rightarrow> bool) \<Rightarrow> bool" where
  "strict_weak_order lt =
     ((\<forall>a. \<not> lt a a) \<and> (\<forall>a b c. lt a b \<and> lt b c \<longrightarrow> lt a c) \<and>
      (\<forall>a b c. \<not> lt a b \<and> \<not> lt b c \<longrightarrow> \<not> lt a c))"

definition sorted_by :: "('v \<Rightarrow> 'v \<Rightarrow> bool) \<Rightarrow> 'v list \<Rightarrow> bool" where
  "sorted_by lt xs = sorted_wrt (\<lambda>a b. \<not> lt b a) xs"

text \<open>
  Inserting \<open>x\<close> into a reversed prefix: what the inner loop does to the elements left of
  index \<open>j\<close>, read from \<open>j\<close> downwards.
\<close>

primrec sink :: "('v \<Rightarrow> 'v \<Rightarrow> bool) \<Rightarrow> 'v \<Rightarrow> 'v list \<Rightarrow> 'v list" where
  "sink lt x [] = [x]"
| "sink lt x (y # rs) = (if lt x y then y # sink lt x rs else x # y # rs)"

section \<open>ProposerPolicy and its registry\<close>

text \<open>
  \<^verbatim>\<open>ProposerPolicyId\<close> and its two constants, and \<^verbatim>\<open>ProposerPolicy\<close>. The registry holds
  \<^verbatim>\<open>ValidatorSet\<close> interface values; each is a reference into a store of validator sets.
  \<^verbatim>\<open>registryMU\<close> is the state of the mutex: \<open>True\<close> when it is locked.
\<close>

type_synonym ProposerPolicyId = uint64

definition RoundRobin :: ProposerPolicyId where
  "RoundRobin = 0"

definition Sticky :: ProposerPolicyId where
  "Sticky = 1"

type_synonym valset_ref = nat

record 'v ProposerPolicy =
  Id :: ProposerPolicyId
  By :: "'v \<Rightarrow> 'v \<Rightarrow> bool"
  registry :: "valset_ref list"
  registryMU :: bool

text \<open>
  The state the methods of a policy act on: the policy itself and the store that gives
  every validator set its member list. The sets of the store are those attached to this
  policy.
\<close>

record 'v world =
  policy :: "'v ProposerPolicy"
  members :: "valset_ref \<Rightarrow> 'v list"

definition NewProposerPolicyByIdAndSortFunc ::
  "ProposerPolicyId \<Rightarrow> ('v \<Rightarrow> 'v \<Rightarrow> bool) \<Rightarrow> 'v ProposerPolicy" where
  "NewProposerPolicyByIdAndSortFunc id' by =
     \<lparr>Id = id', By = by, registry = [], registryMU = False\<rparr>"

text \<open>
  Modelled from the spec: the implementations of the \<^verbatim>\<open>ValidatorSet\<close> interface are not
  among the sources. Its method \<^verbatim>\<open>SortValidators\<close> "sorts the validators based on the
  configured By function" (the interface's comment) and "re-applies the policy's
  comparison function to the member list" (section 4.1): the member list of the set is
  sorted with \<^verbatim>\<open>By.Sort\<close> of the policy as it is at the time of the call.
\<close>

definition SortValidators :: "valset_ref \<Rightarrow> 'v world \<Rightarrow> 'v world" where
  "SortValidators validatorSet w =
     w\<lparr>members := (members w)(validatorSet := By_Sort (By (policy w)) (members w validatorSet))\<rparr>"

text \<open>
  \<^verbatim>\<open>Use\<close>: assign \<^verbatim>\<open>By\<close>, then range over the registry and sort every set. The range
  expression is evaluated once, before the first iteration.
\<close>

fun Use_loop :: "valset_ref list \<Rightarrow> 'v world \<Rightarrow> 'v world" where
  "Use_loop [] w = w"
| "Use_loop (validatorSet # rest) w = Use_loop rest (SortValidators validatorSet w)"

definition Use :: "('v \<Rightarrow> 'v \<Rightarrow> bool) \<Rightarrow> 'v world \<Rightarrow> 'v world" where
  "Use v w =
     (let w1 = w\<lparr>policy := (policy w)\<lparr>By := v\<rparr>\<rparr>
      in Use_loop (registry (policy w1)) w1)"

text \<open>
  \<^verbatim>\<open>RegisterValidatorSet\<close> and \<^verbatim>\<open>ClearRegistry\<close> as functions of the state, for a caller that
  runs alone: \<^verbatim>\<open>Lock\<close> on a locked mutex never returns (\<open>None\<close>), and the deferred
  \<^verbatim>\<open>Unlock\<close> runs when the method returns.
\<close>

definition RegisterValidatorSet :: "valset_ref \<Rightarrow> 'v world \<Rightarrow> 'v world option" where
  "RegisterValidatorSet valSet w =
     (if registryMU (policy w) then None
      else
        let w1 = w\<lparr>policy := (policy w)\<lparr>registryMU := True\<rparr>\<rparr>;
            w2 = (if length (registry (policy w1)) = 0
                  then w1\<lparr>policy := (policy w1)\<lparr>registry := [valSet]\<rparr>\<rparr>
                  else w1\<lparr>policy := (policy w1)\<lparr>registry := registry (policy w1) @ [valSet]\<rparr>\<rparr>)
        in Some (w2\<lparr>policy := (policy w2)\<lparr>registryMU := False\<rparr>\<rparr>))"

definition ClearRegistry :: "'v world \<Rightarrow> 'v world option" where
  "ClearRegistry w =
     (if registryMU (policy w) then None
      else
        let w1 = w\<lparr>policy := (policy w)\<lparr>registryMU := True\<rparr>\<rparr>;
            w2 = w1\<lparr>policy := (policy w1)\<lparr>registry := []\<rparr>\<rparr>
        in Some (w2\<lparr>policy := (policy w2)\<lparr>registryMU := False\<rparr>\<rparr>))"

subsection \<open>The three methods, statement by statement\<close>

text \<open>
  To follow several callers at once, each method is also given as a sequence of atomic
  steps. A program point names the statement a caller is about to run: for \<^verbatim>\<open>Use\<close> the
  assignment to \<^verbatim>\<open>By\<close>, the evaluation of the range expression and the loop body for each
  set of the evaluated slice; for the other two methods \<^verbatim>\<open>Lock\<close>, the assignment to the
  registry and the deferred \<^verbatim>\<open>Unlock\<close>. A step is \<open>None\<close> when the caller cannot move:
  it has returned, or it is at a \<^verbatim>\<open>Lock\<close> of a locked mutex.
\<close>

datatype 'v pc =
    Use_assign "'v \<Rightarrow> 'v \<Rightarrow> bool"
  | Use_range
  | Use_body "valset_ref list"
  | Register_Lock valset_ref
  | Register_store valset_ref
  | Register_Unlock
  | Clear_Lock
  | Clear_store
  | Clear_Unlock
  | Returned

fun step :: "'v pc \<Rightarrow> 'v world \<Rightarrow> ('v pc \<times> 'v world) option" where
  "step (Use_assign v) w = Some (Use_range, w\<lparr>policy := (policy w)\<lparr>By := v\<rparr>\<rparr>)"
| "step Use_range w = Some (Use_body (registry (policy w)), w)"
| "step (Use_body []) w = Some (Returned, w)"
| "step (Use_body (validatorSet # rest)) w = Some (Use_body rest, SortValidators validatorSet w)"
| "step (Register_Lock valSet) w =
     (if registryMU (policy w) then None
      else Some (Register_store valSet, w\<lparr>policy := (policy w)\<lparr>registryMU := True\<rparr>\<rparr>))"
| "step (Register_store valSet) w =
     Some (Register_Unlock,
       if length (registry (policy w)) = 0
       then w\<lparr>policy := (policy w)\<lparr>registry := [valSet]\<rparr>\<rparr>
       else w\<lparr>policy := (policy w)\<lparr>registry := registry (policy w) @ [valSet]\<rparr>\<rparr>)"
| "step Register_Unlock w = Some (Returned, w\<lparr>policy := (policy w)\<lparr>registryMU := False\<rparr>\<rparr>)"
| "step Clear_Lock w =
     (if registryMU (policy w) then None
      else Some (Clear_store, w\<lparr>policy := (policy w)\<lparr>registryMU := True\<rparr>\<rparr>))"
| "step Clear_store w = Some (Clear_Unlock, w\<lparr>policy := (policy w)\<lparr>registry := []\<rparr>\<rparr>)"
| "step Clear_Unlock w = Some (Returned, w\<lparr>policy := (policy w)\<lparr>registryMU := False\<rparr>\<rparr>)"
| "step Returned w = None"

text \<open>
  A schedule is the list of callers in the order in which they take their steps; it runs
  as far as every scheduled caller can move.
\<close>

fun run :: "nat list \<Rightarrow> 'v pc list \<times> 'v world \<Rightarrow> ('v pc list \<times> 'v world) option" where
  "run [] cfg = Some cfg"
| "run (t # schedule) (pcs, w) =
     (if t < length pcs
      then (case step (pcs ! t) w of
              None \<Rightarrow> None
            | Some (pc', w') \<Rightarrow> run schedule (pcs[t := pc'], w'))
      else None)"

text \<open>
  The program points between a method's \<^verbatim>\<open>Lock\<close> and its \<^verbatim>\<open>Unlock\<close>, and those of the
  pass of \<^verbatim>\<open>Use\<close> over the registry.
\<close>

fun holds_registryMU :: "'v pc \<Rightarrow> bool" where
  "holds_registryMU (Register_store valSet) = True"
| "holds_registryMU Register_Unlock = True"
| "holds_registryMU Clear_store = True"
| "holds_registryMU Clear_Unlock = True"
| "holds_registryMU pc = False"

fun in_resort_pass :: "'v pc \<Rightarrow> bool" where
  "in_resort_pass Use_range = True"
| "in_resort_pass (Use_body rest) = True"
| "in_resort_pass pc = False"

text \<open>
  The mutex is locked exactly when one caller is between \<^verbatim>\<open>Lock\<close> and \<^verbatim>\<open>Unlock\<close>.
\<close>

definition holders :: "'v pc list \<Rightarrow> nat" where
  "holders pcs = length (filter holds_registryMU pcs)"

definition lock_consistent :: "'v pc list \<times> 'v world \<Rightarrow> bool" where
  "lock_consistent cfg =
     (holders (fst cfg) = (if registryMU (policy (snd cfg)) then 1 else 0))"

text \<open>
  Two states for the examples: a policy that sorts downwards, with one registered set,
  and one with two registered sets and a third set that is not registered.
\<close>

definition race_world :: "nat world" where
  "race_world =
     \<lparr>policy = \<lparr>Id = RoundRobin, By = (\<lambda>a b. b < a), registry = [0], registryMU = False\<rparr>,
      members = (\<lambda>r. [])(0 := [3, 1, 2])\<rparr>"

definition two_set_world :: "nat world" where
  "two_set_world =
     \<lparr>policy = \<lparr>Id = RoundRobin, By = (\<lambda>a b. b < a), registry = [0, 1], registryMU = False\<rparr>,
      members = (\<lambda>r. [])(0 := [3, 1, 2], 1 := [5, 4], 2 := [9, 8])\<rparr>"


section \<open>The RLP codec used by the envelope types\<close>

text \<open>
  The methods \<^verbatim>\<open>EncodeRLP\<close> and \<^verbatim>\<open>DecodeRLP\<close> of \<^verbatim>\<open>types.go\<close> hand their work to
  \<^verbatim>\<open>rlp.Encode\<close> and \<^verbatim>\<open>rlp.Stream.Decode\<close>. The package \<^verbatim>\<open>rlp\<close> is not among the sources;
  the specification asks of it a bit-exact ordered record per type and the rejection of
  malformed or truncated input (section 4.3), and its definitions below follow Ethereum's
  RLP as that package implements it. A stream is the list of the bytes still to be read;
  reading returns the rest. The content of a list is itself a stream, so the limit a list
  puts on its elements is the end of that content.
\<close>

subsection \<open>Integers as big-endian bytes\<close>

text \<open>
  Modelled from the spec: the bytes of an integer in package \<^verbatim>\<open>rlp\<close> (not among the
  sources), big-endian with no leading zero byte; zero has no bytes at all.
\<close>

fun be_bytes :: "nat \<Rightarrow> byte list" where
  "be_bytes n = (if n = 0 then [] else be_bytes (n div 256) @ [of_nat (n mod 256)])"

text \<open>
  Modelled from the spec: the integer that big-endian bytes stand for, as package \<^verbatim>\<open>rlp\<close>
  (not among the sources) reads sizes and integers.
\<close>

definition read_be :: "byte list \<Rightarrow> nat" where
  "read_be bs = foldl (\<lambda>a b. a * 256 + unat b) 0 bs"

subsection \<open>Errors and kinds\<close>

text \<open>
  Modelled from the spec: the decoding errors of package \<^verbatim>\<open>rlp\<close> (not among the sources),
  by the reason for the rejection. \<open>InputTooShort\<close> stands for every way in which the
  bytes announced by a header are not all there (end of input, a value larger than the
  input, an element larger than its list).
\<close>

datatype decode_error =
    InputTooShort
  | ErrExpectedString
  | ErrExpectedList
  | ErrCanonInt
  | ErrCanonSize
  | TooFewElements
  | TooManyElements
  | InputStringTooShort
  | InputStringTooLong

text \<open>
  Modelled from the spec: the one encoding error of package \<^verbatim>\<open>rlp\<close> (not among the
  sources) that the envelope types can meet.
\<close>

datatype encode_error = ErrNegativeBigInt

text \<open>
  Modelled from the spec: the kind of the value ahead in a stream of package \<^verbatim>\<open>rlp\<close> (not
  among the sources), with the byte itself for a single byte and the size of the content
  for a string or a list.
\<close>

datatype Kind = Byte_kind byte | String_kind nat | List_kind nat

text \<open>Sizes are \<^verbatim>\<open>uint64\<close> values in the package.\<close>

definition fits_uint64 :: "nat \<Rightarrow> bool" where
  "fits_uint64 n = (n < 2 ^ 64)"

subsection \<open>Writing\<close>

text \<open>
  Modelled from the spec: the header that package \<^verbatim>\<open>rlp\<close> (not among the sources) writes
  before a string (tags \<open>0x80\<close> and \<open>0xB7\<close>) or a list (tags \<open>0xC0\<close> and \<open>0xF7\<close>): one byte
  for a size below 56, otherwise the number of size bytes followed by the size.
\<close>

definition puthead :: "nat \<Rightarrow> nat \<Rightarrow> nat \<Rightarrow> byte list" where
  "puthead smalltag largetag sz =
     (if sz < 56 then [of_nat (smalltag + sz)]
      else of_nat (largetag + length (be_bytes sz)) # be_bytes sz)"

text \<open>
  Modelled from the spec: a byte string as package \<^verbatim>\<open>rlp\<close> (not among the sources) writes
  it; a string of one byte below \<open>0x80\<close> is that byte, any other gets a header.
\<close>

definition writeBytes :: "byte list \<Rightarrow> byte list" where
  "writeBytes b =
     (if length b = 1 \<and> unat (b ! 0) \<le> 0x7F then [b ! 0]
      else puthead 0x80 0xB7 (length b) @ b)"

text \<open>
  Modelled from the spec: a byte array of two bytes or more, such as a 32-byte hash, as
  package \<^verbatim>\<open>rlp\<close> (not among the sources) writes it: always with a header.
\<close>

definition writeByteArray :: "byte list \<Rightarrow> byte list" where
  "writeByteArray arr = puthead 0x80 0xB7 (length arr) @ arr"

text \<open>
  Modelled from the spec: a list as package \<^verbatim>\<open>rlp\<close> (not among the sources) writes it,
  given the bytes written for its elements.
\<close>

definition writeList :: "byte list \<Rightarrow> byte list" where
  "writeList content = puthead 0xC0 0xF7 (length content) @ content"

text \<open>
  Modelled from the spec: a \<^verbatim>\<open>*big.Int\<close> as package \<^verbatim>\<open>rlp\<close> (not among the sources) writes
  it: the empty string for nil, an error for a negative value, and the string of its
  bytes otherwise.
\<close>

definition writeBigIntPtr :: "bigInt \<Rightarrow> encode_error + byte list" where
  "writeBigIntPtr ptr =
     (case ptr of
        None \<Rightarrow> Inr [0x80]
      | Some i \<Rightarrow> if i < 0 then Inl ErrNegativeBigInt else Inr (writeBytes (be_bytes (nat i))))"

text \<open>
  Modelled from the spec: an interface value as package \<^verbatim>\<open>rlp\<close> (not among the sources)
  writes it: the empty list for nil, and otherwise what the \<^verbatim>\<open>EncodeRLP\<close> method of the
  value writes.
\<close>

definition writeInterface ::
  "('p \<Rightarrow> encode_error + byte list) \<Rightarrow> 'p option \<Rightarrow> encode_error + byte list" where
  "writeInterface EncodeRLP val = (case val of None \<Rightarrow> Inr [0xC0] | Some p \<Rightarrow> EncodeRLP p)"

subsection \<open>Reading\<close>

text \<open>
  Modelled from the spec: reading a size of a given number of bytes in package \<^verbatim>\<open>rlp\<close> (not
  among the sources). A size of several bytes must not start with a zero byte.
\<close>

definition readUint :: "nat \<Rightarrow> byte list \<Rightarrow> decode_error + (nat \<times> byte list)" where
  "readUint sz s =
     (if sz = 0 then Inr (0, s)
      else if sz = 1 then (case s of [] \<Rightarrow> Inl InputTooShort | b # s' \<Rightarrow> Inr (unat b, s'))
      else if length s < sz then Inl InputTooShort
      else if s ! 0 = 0 then Inl ErrCanonSize
      else Inr (read_be (take sz s), drop sz s))"

text \<open>
  Modelled from the spec: reading the kind and size of the value ahead in package \<^verbatim>\<open>rlp\<close>
  (not among the sources). The long form of a size is refused for sizes below 56.
\<close>

definition readKind :: "byte list \<Rightarrow> decode_error + (Kind \<times> byte list)" where
  "readKind s =
     (case s of
        [] \<Rightarrow> Inl InputTooShort
      | b # s' \<Rightarrow>
          if unat b < 0x80 then Inr (Byte_kind b, s')
          else if unat b < 0xB8 then Inr (String_kind (unat b - 0x80), s')
          else if unat b < 0xC0 then
            (case readUint (unat b - 0xB7) s' of
               Inl e \<Rightarrow> Inl e
             | Inr (sz, s'') \<Rightarrow> if sz < 56 then Inl ErrCanonSize else Inr (String_kind sz, s''))
          else if unat b < 0xF8 then Inr (List_kind (unat b - 0xC0), s')
          else
            (case readUint (unat b - 0xF7) s' of
               Inl e \<Rightarrow> Inl e
             | Inr (sz, s'') \<Rightarrow> if sz < 56 then Inl ErrCanonSize else Inr (List_kind sz, s'')))"

text \<open>
  Modelled from the spec: entering a list in package \<^verbatim>\<open>rlp\<close> (not among the sources)
  gives the content of the list and the stream after the list.
\<close>

definition Stream_List :: "byte list \<Rightarrow> decode_error + (byte list \<times> byte list)" where
  "Stream_List s =
     (case readKind s of
        Inl e \<Rightarrow> Inl e
      | Inr (kind, s') \<Rightarrow>
          (case kind of
             List_kind sz \<Rightarrow>
               if length s' < sz then Inl InputTooShort else Inr (take sz s', drop sz s')
           | _ \<Rightarrow> Inl ErrExpectedList))"

text \<open>
  Modelled from the spec: leaving a list in package \<^verbatim>\<open>rlp\<close> (not among the sources)
  requires its content to be used up.
\<close>

definition Stream_ListEnd :: "byte list \<Rightarrow> decode_error option" where
  "Stream_ListEnd inner = (if inner = [] then None else Some TooManyElements)"

text \<open>
  Modelled from the spec: decoding a \<^verbatim>\<open>*big.Int\<close> in package \<^verbatim>\<open>rlp\<close> (not among the
  sources) accepts a single byte or a string, in their canonical form and with no leading
  zero byte.
\<close>

definition decodeBigInt :: "byte list \<Rightarrow> decode_error + (int \<times> byte list)" where
  "decodeBigInt s =
     (case readKind s of
        Inl e \<Rightarrow> Inl e
      | Inr (kind, s') \<Rightarrow>
          (case kind of
             List_kind sz \<Rightarrow> Inl ErrExpectedString
           | Byte_kind b \<Rightarrow> if b = 0 then Inl ErrCanonInt else Inr (int (unat b), s')
           | String_kind sz \<Rightarrow>
               if sz = 0 then Inr (0, s')
               else if length s' < sz then Inl InputTooShort
               else
                 let buffer = take sz s' in
                 if sz = 1 \<and> unat (buffer ! 0) < 128 then Inl ErrCanonSize
                 else if buffer ! 0 = 0 then Inl ErrCanonInt
                 else Inr (int (read_be buffer), drop sz s')))"

text \<open>
  Modelled from the spec: decoding a byte array of length \<open>n\<close> in package \<^verbatim>\<open>rlp\<close> (not
  among the sources) accepts a string of exactly \<open>n\<close> bytes.
\<close>

definition decodeByteArray :: "nat \<Rightarrow> byte list \<Rightarrow> decode_error + (byte list \<times> byte list)" where
  "decodeByteArray n s =
     (case readKind s of
        Inl e \<Rightarrow> Inl e
      | Inr (kind, s') \<Rightarrow>
          (case kind of
             Byte_kind b \<Rightarrow>
               if n = 0 then Inl InputStringTooLong
               else if n > 1 then Inl InputStringTooShort
               else Inr ([b], s')
           | String_kind sz \<Rightarrow>
               if n < sz then Inl InputStringTooLong
               else if n > sz then Inl InputStringTooShort
               else if length s' < sz then Inl InputTooShort
               else if sz = 1 \<and> unat (s' ! 0) < 128 then Inl ErrCanonSize
               else Inr (take sz s', drop sz s')
           | List_kind sz \<Rightarrow> Inl ErrExpectedString))"

text \<open>
  Modelled from the spec: the struct decoder of package \<^verbatim>\<open>rlp\<close> (not among the sources)
  reports too few elements when a field finds the content of its list used up.
\<close>

definition decode_field ::
  "(byte list \<Rightarrow> decode_error + ('a \<times> byte list)) \<Rightarrow> byte list \<Rightarrow>
   decode_error + ('a \<times> byte list)" where
  "decode_field decoder inner = (if inner = [] then Inl TooFewElements else decoder inner)"

subsection \<open>View\<close>

text \<open>
  \<^verbatim>\<open>View.EncodeRLP\<close> encodes the two-element slice of round and sequence.
\<close>

definition View_EncodeRLP :: "View \<Rightarrow> encode_error + byte list" where
  "View_EncodeRLP v =
     (case writeBigIntPtr (Round v) of
        Inl e \<Rightarrow> Inl e
      | Inr r \<Rightarrow>
          (case writeBigIntPtr (Sequence v) of
             Inl e \<Rightarrow> Inl e
           | Inr s \<Rightarrow> Inr (writeList (r @ s))))"

text \<open>
  The call \<^verbatim>\<open>s.Decode(&view)\<close> in \<^verbatim>\<open>View.DecodeRLP\<close>, for the local struct of two
  \<^verbatim>\<open>*big.Int\<close> fields: the struct decoder enters the list, decodes each field and leaves
  the list.
\<close>

definition Stream_Decode_view :: "byte list \<Rightarrow> decode_error + (View \<times> byte list)" where
  "Stream_Decode_view s =
     (case Stream_List s of
        Inl e \<Rightarrow> Inl e
      | Inr (inner, s') \<Rightarrow>
          (case decode_field decodeBigInt inner of
             Inl e \<Rightarrow> Inl e
           | Inr (round, inner1) \<Rightarrow>
               (case decode_field decodeBigInt inner1 of
                  Inl e \<Rightarrow> Inl e
                | Inr (sequence, inner2) \<Rightarrow>
                    (case Stream_ListEnd inner2 of
                       Some e \<Rightarrow> Inl e
                     | None \<Rightarrow> Inr (\<lparr>Round = Some round, Sequence = Some sequence\<rparr>, s')))))"

text \<open>
  \<^verbatim>\<open>View.DecodeRLP\<close>: on an error of the decoding it returns the error, and otherwise it
  assigns both fields of the receiver and returns nil. The result is the receiver after
  the call together with the error or, on success, the stream after the value.
\<close>

definition View_DecodeRLP :: "View \<Rightarrow> byte list \<Rightarrow> View \<times> (decode_error + byte list)" where
  "View_DecodeRLP v s =
     (case Stream_Decode_view s of
        Inl err \<Rightarrow> (v, Inl err)
      | Inr (view, s') \<Rightarrow> (v\<lparr>Round := Round view, Sequence := Sequence view\<rparr>, Inr s'))"

subsection \<open>Subject and Preprepare\<close>

text \<open>
  \<^verbatim>\<open>Subject\<close> and \<^verbatim>\<open>Preprepare\<close> of \<^verbatim>\<open>types.go\<close>. The view is held by pointer (\<open>None\<close> is
  nil). \<^verbatim>\<open>Proposal\<close> is an interface value whose only implementation is the block type of
  the chain; the block type and its codec are not among the sources, so a proposal is a
  value of a type parameter and its two codec methods are parameters of the functions
  below.
\<close>

record Subject =
  View :: "View option"
  Digest :: Hash

record 'p Preprepare =
  View :: "View option"
  Proposal :: "'p option"

text \<open>
  A \<^verbatim>\<open>*View\<close> is written through \<^verbatim>\<open>View.EncodeRLP\<close>, and as the empty list when nil.
\<close>

definition writeViewPtr :: "View option \<Rightarrow> encode_error + byte list" where
  "writeViewPtr ptr = (case ptr of None \<Rightarrow> Inr [0xC0] | Some v \<Rightarrow> View_EncodeRLP v)"

text \<open>
  A \<^verbatim>\<open>*View\<close> is read by allocating a view and calling \<^verbatim>\<open>View.DecodeRLP\<close> on it; a
  \<^verbatim>\<open>*types.Block\<close> is read the same way through the block's own \<^verbatim>\<open>DecodeRLP\<close>.
\<close>

definition decodeViewPtr :: "byte list \<Rightarrow> decode_error + (View option \<times> byte list)" where
  "decodeViewPtr s =
     (case View_DecodeRLP \<lparr>Round = None, Sequence = None\<rparr> s of
        (newval, Inl err) \<Rightarrow> Inl err
      | (newval, Inr s') \<Rightarrow> Inr (Some newval, s'))"

definition decodeBlockPtr ::
  "(byte list \<Rightarrow> decode_error + ('p \<times> byte list)) \<Rightarrow> byte list \<Rightarrow>
   decode_error + ('p option \<times> byte list)" where
  "decodeBlockPtr DecodeRLP s =
     (case DecodeRLP s of Inl err \<Rightarrow> Inl err | Inr (newval, s') \<Rightarrow> Inr (Some newval, s'))"

text \<open>
  \<^verbatim>\<open>Subject.EncodeRLP\<close>, the call \<^verbatim>\<open>s.Decode(&subject)\<close> for the local struct of
  \<^verbatim>\<open>Subject.DecodeRLP\<close>, and \<^verbatim>\<open>Subject.DecodeRLP\<close>.
\<close>

definition Subject_EncodeRLP :: "Subject \<Rightarrow> encode_error + byte list" where
  "Subject_EncodeRLP b =
     (case writeViewPtr (Subject.View b) of
        Inl e \<Rightarrow> Inl e
      | Inr v \<Rightarrow> Inr (writeList (v @ writeByteArray (Digest b))))"

definition Stream_Decode_subject :: "byte list \<Rightarrow> decode_error + (Subject \<times> byte list)" where
  "Stream_Decode_subject s =
     (case Stream_List s of
        Inl e \<Rightarrow> Inl e
      | Inr (inner, s') \<Rightarrow>
          (case decode_field decodeViewPtr inner of
             Inl e \<Rightarrow> Inl e
           | Inr (view, inner1) \<Rightarrow>
               (case decode_field (decodeByteArray 32) inner1 of
                  Inl e \<Rightarrow> Inl e
                | Inr (digest, inner2) \<Rightarrow>
                    (case Stream_ListEnd inner2 of
                       Some e \<Rightarrow> Inl e
                     | None \<Rightarrow> Inr (\<lparr>Subject.View = view, Digest = digest\<rparr>, s')))))"

definition Subject_DecodeRLP ::
  "Subject \<Rightarrow> byte list \<Rightarrow> Subject \<times> (decode_error + byte list)" where
  "Subject_DecodeRLP b s =
     (case Stream_Decode_subject s of
        Inl err \<Rightarrow> (b, Inl err)
      | Inr (subject, s') \<Rightarrow>
          (b\<lparr>Subject.View := Subject.View subject, Digest := Digest subject\<rparr>, Inr s'))"

text \<open>
  \<^verbatim>\<open>Preprepare.EncodeRLP\<close>, the call \<^verbatim>\<open>s.Decode(&preprepare)\<close> for the local struct of
  \<^verbatim>\<open>Preprepare.DecodeRLP\<close>, and \<^verbatim>\<open>Preprepare.DecodeRLP\<close>.
\<close>

definition Preprepare_EncodeRLP ::
  "('p \<Rightarrow> encode_error + byte list) \<Rightarrow> 'p Preprepare \<Rightarrow> encode_error + byte list" where
  "Preprepare_EncodeRLP Block_EncodeRLP b =
     (case writeViewPtr (Preprepare.View b) of
        Inl e \<Rightarrow> Inl e
      | Inr v \<Rightarrow>
          (case writeInterface Block_EncodeRLP (Proposal b) of
             Inl e \<Rightarrow> Inl e
           | Inr p \<Rightarrow> Inr (writeList (v @ p))))"

definition Stream_Decode_preprepare ::
  "(byte list \<Rightarrow> decode_error + ('p \<times> byte list)) \<Rightarrow> byte list \<Rightarrow>
   decode_error + ('p Preprepare \<times> byte list)" where
  "Stream_Decode_preprepare Block_DecodeRLP s =
     (case Stream_List s of
        Inl e \<Rightarrow> Inl e
      | Inr (inner, s') \<Rightarrow>
          (case decode_field decodeViewPtr inner of
             Inl e \<Rightarrow> Inl e
           | Inr (view, inner1) \<Rightarrow>
               (case decode_field (decodeBlockPtr Block_DecodeRLP) inner1 of
                  Inl e \<Rightarrow> Inl e
                | Inr (proposal, inner2) \<Rightarrow>
                    (case Stream_ListEnd inner2 of
                       Some e \<Rightarrow> Inl e
                     | None \<Rightarrow>
                         Inr (\<lparr>Preprepare.View = view, Proposal = proposal\<rparr>, s')))))"

definition Preprepare_DecodeRLP ::
  "(byte list \<Rightarrow> decode_error + ('p \<times> byte list)) \<Rightarrow> 'p Preprepare \<Rightarrow> byte list \<Rightarrow>
   'p Preprepare \<times> (decode_error + byte list)" where
  "Preprepare_DecodeRLP Block_DecodeRLP b s =
     (case Stream_Decode_preprepare Block_DecodeRLP s of
        Inl err \<Rightarrow> (b, Inl err)
      | Inr (preprepare, s') \<Rightarrow>
          (b\<lparr>Preprepare.View := Preprepare.View preprepare, Proposal := Proposal preprepare\<rparr>,
           Inr s'))"

subsection \<open>Valid values and well-formed input\<close>

text \<open>
  A valid \<^verbatim>\<open>*big.Int\<close> field is not nil and not negative, and its bytes have a length that
  fits a size; a valid view has two valid fields whose strings together fit a size.
\<close>

definition valid_bigInt :: "bigInt \<Rightarrow> bool" where
  "valid_bigInt x =
     (case x of None \<Rightarrow> False | Some i \<Rightarrow> 0 \<le> i \<and> fits_uint64 (length (be_bytes (nat i))))"

definition bigInt_string :: "bigInt \<Rightarrow> byte list" where
  "bigInt_string x = writeBytes (be_bytes (nat (the x)))"

definition valid_View :: "View \<Rightarrow> bool" where
  "valid_View v =
     (valid_bigInt (Round v) \<and> valid_bigInt (Sequence v) \<and>
      fits_uint64 (length (bigInt_string (Round v) @ bigInt_string (Sequence v))))"

text \<open>The bytes of a valid view.\<close>

definition View_bytes :: "View \<Rightarrow> byte list" where
  "View_bytes v = writeList (bigInt_string (Round v) @ bigInt_string (Sequence v))"

text \<open>
  A valid subject holds a valid view and a digest of 32 bytes; a valid preprepare holds a
  valid view and a proposal that its codec encodes to a non-empty byte string. In both
  the content of the record fits a size.
\<close>

definition valid_Subject :: "Subject \<Rightarrow> bool" where
  "valid_Subject b =
     (case Subject.View b of
        None \<Rightarrow> False
      | Some v \<Rightarrow>
          valid_View v \<and> length (Digest b) = 32 \<and>
          fits_uint64 (length (View_bytes v @ writeByteArray (Digest b))))"

definition valid_Preprepare ::
  "('p \<Rightarrow> encode_error + byte list) \<Rightarrow> 'p Preprepare \<Rightarrow> bool" where
  "valid_Preprepare Block_EncodeRLP b =
     (case (Preprepare.View b, Proposal b) of
        (Some v, Some p) \<Rightarrow>
          valid_View v \<and>
          (case Block_EncodeRLP p of
             Inl e \<Rightarrow> False
           | Inr pe \<Rightarrow> pe \<noteq> [] \<and> fits_uint64 (length (View_bytes v @ pe)))
      | _ \<Rightarrow> False)"

text \<open>
  What the envelope needs of the codec of the proposal: decoding the encoding of \<open>p\<close>
  gives \<open>p\<close> back and leaves the rest of the stream, and whatever is decoded was read from
  its own non-empty encoding.
\<close>

definition block_codec_complete ::
  "('p \<Rightarrow> encode_error + byte list) \<Rightarrow> (byte list \<Rightarrow> decode_error + ('p \<times> byte list)) \<Rightarrow>
   'p \<Rightarrow> bool" where
  "block_codec_complete Block_EncodeRLP Block_DecodeRLP p =
     (\<forall>pe rest. Block_EncodeRLP p = Inr pe \<longrightarrow> Block_DecodeRLP (pe @ rest) = Inr (p, rest))"

definition block_codec_sound ::
  "('p \<Rightarrow> encode_error + byte list) \<Rightarrow> (byte list \<Rightarrow> decode_error + ('p \<times> byte list)) \<Rightarrow>
   bool" where
  "block_codec_sound Block_EncodeRLP Block_DecodeRLP =
     (\<forall>s p s'. Block_DecodeRLP s = Inr (p, s') \<longrightarrow>
        (\<exists>pe. Block_EncodeRLP p = Inr pe \<and> pe \<noteq> [] \<and> s = pe @ s'))"

text \<open>A call of \<^verbatim>\<open>DecodeRLP\<close> succeeded when it returned no error.\<close>

definition decode_ok :: "'a \<times> (decode_error + byte list) \<Rightarrow> bool" where
  "decode_ok result = (case snd result of Inl err \<Rightarrow> False | Inr s' \<Rightarrow> True)"

subsection \<open>Example values\<close>

text \<open>
  A small codec to stand for the block codec in the examples (a proposal is a flag,
  written as a list of at most one element), and a view, a subject and a preprepare.
\<close>

definition flag_EncodeRLP :: "bool \<Rightarrow> encode_error + byte list" where
  "flag_EncodeRLP p = Inr (if p then [0xC1, 0x01] else [0xC0])"

definition flag_DecodeRLP :: "byte list \<Rightarrow> decode_error + (bool \<times> byte list)" where
  "flag_DecodeRLP s =
     (case s of
        [] \<Rightarrow> Inl InputTooShort
      | b # s' \<Rightarrow>
          if b = 0xC0 then Inr (False, s')
          else if b = 0xC1 then
            (case s' of
               [] \<Rightarrow> Inl InputTooShort
             | c # s'' \<Rightarrow> if c = 0x01 then Inr (True, s'') else Inl ErrCanonInt)
          else Inl ErrExpectedList)"

definition example_View :: View where
  "example_View = \<lparr>Round = Some 1, Sequence = Some 300\<rparr>"

definition example_Subject :: Subject where
  "example_Subject = \<lparr>Subject.View = Some example_View, Digest = replicate 32 0xAB\<rparr>"

definition example_Preprepare :: "bool Preprepare" where
  "example_Preprepare = \<lparr>Preprepare.View = Some example_View, Proposal = Some True\<rparr>"


section \<open>Properties of the transition resolver\<close>

subsection \<open>Comparison of big integers\<close>

lemma big_Cmp_Some [simp]:
  "big_Cmp (Some a) (Some b) = Inr (if a < b then - 1 else if a = b then 0 else 1)"
  by (simp add: big_Cmp_def)

lemma big_Cmp_None_Some [simp]: "big_Cmp None (Some b) = Inl NilPointerDereference"
  by (simp add: big_Cmp_def)

lemma big_Cmp_Some_None [simp]: "big_Cmp (Some a) None = Inl NilPointerDereference"
  by (simp add: big_Cmp_def)

lemma big_Cmp_None_None [simp]: "big_Cmp None None = Inr 0"
  by (simp add: big_Cmp_def)

subsection \<open>The loop over an ascending transition list is a fold over a filter\<close>

lemma transitions_loop_sorted:
  "well_formed_transitions ts \<Longrightarrow>
   transitions_loop ts (Some h) callback acc =
     Inr (foldl (\<lambda>a t. callback t a) acc (applicable h ts))"
proof (induction ts arbitrary: acc)
  case Nil
  then show ?case by (simp add: applicable_def)
next
  case (Cons t ts)
  from Cons.prems obtain b where b: "Block t = Some b"
    by (auto simp: well_formed_transitions_def)
  from Cons.prems have wf: "well_formed_transitions ts"
    by (auto simp: well_formed_transitions_def)
  from Cons.prems b have le: "\<forall>u\<in>set ts. b \<le> the (Block u)"
    by (auto simp: well_formed_transitions_def)
  show ?case
  proof (cases "b \<le> h")
    case True
    then show ?thesis using b Cons.IH [OF wf] by (simp add: applicable_def)
  next
    case False
    with le have "filter (\<lambda>t. the (Block t) \<le> h) ts = []"
      by (auto simp: filter_empty_conv)
    with False b show ?thesis by (simp add: applicable_def)
  qed
qed

lemma getTransitionValue_sorted:
  "well_formed_transitions (Transitions c) \<Longrightarrow>
   getTransitionValue c (Some h) callback acc =
     Inr (foldl (\<lambda>a t. callback t a) acc (applicable h (Transitions c)))"
  by (cases "Transitions c = []")
     (simp_all add: getTransitionValue_def transitions_loop_sorted applicable_def)

lemma getTransitionValue_nil: "getTransitionValue c None callback acc = Inr acc"
  by (simp add: getTransitionValue_def)

subsection \<open>A fold of guarded overwrites keeps the last value that is present\<close>

lemma foldl_overwrite:
  "foldl (\<lambda>a t. if present t then val t else a) base ts = latest_override present val base ts"
proof (induction ts rule: rev_induct)
  case Nil
  then show ?case by (simp add: latest_override_def)
next
  case (snoc t ts)
  then show ?case
    by (auto simp: latest_override_def split: list.splits)
qed

lemma field_of_foldl:
  assumes "\<And>t a. f (upd t a) = (if present t then val t else f a)"
  shows "f (foldl (\<lambda>a t. upd t a) c ts) = latest_override present val (f c) ts"
proof -
  have "f (foldl (\<lambda>a t. upd t a) c ts) = foldl (\<lambda>a t. if present t then val t else a) (f c) ts"
    by (induction ts rule: rev_induct) (simp_all add: assms)
  then show ?thesis by (simp add: foldl_overwrite)
qed

lemma frame_of_foldl:
  assumes "\<And>t a. f (upd t a) = f a"
  shows "f (foldl (\<lambda>a t. upd t a) c ts) = f c"
  by (induction ts rule: rev_induct) (simp_all add: assms)

subsection \<open>The callback of GetConfig is the specification's overlay\<close>

text \<open>
  A guarded assignment to one field is an unconditional update of that field with a
  guarded value; rewriting the ten assignments this way keeps the terms small.
\<close>

lemma assign_if_RequestTimeout:
  "(if b then r\<lparr>RequestTimeout := v\<rparr> else r) = r\<lparr>RequestTimeout := (if b then v else RequestTimeout r)\<rparr>"
  by simp

lemma assign_if_Epoch:
  "(if b then r\<lparr>Epoch := v\<rparr> else r) = r\<lparr>Epoch := (if b then v else Epoch r)\<rparr>"
  by simp

lemma assign_if_BlockPeriod:
  "(if b then r\<lparr>BlockPeriod := v\<rparr> else r) = r\<lparr>BlockPeriod := (if b then v else BlockPeriod r)\<rparr>"
  by simp

lemma assign_if_BeneficiaryMode:
  "(if b then r\<lparr>Config.BeneficiaryMode := v\<rparr> else r) =
     r\<lparr>Config.BeneficiaryMode := (if b then v else Config.BeneficiaryMode r)\<rparr>"
  by simp

lemma assign_if_BlockReward:
  "(if b then r\<lparr>Config.BlockReward := v\<rparr> else r) =
     r\<lparr>Config.BlockReward := (if b then v else Config.BlockReward r)\<rparr>"
  by simp

lemma assign_if_MiningBeneficiary:
  "(if b then r\<lparr>Config.MiningBeneficiary := v\<rparr> else r) =
     r\<lparr>Config.MiningBeneficiary := (if b then v else Config.MiningBeneficiary r)\<rparr>"
  by simp

lemma assign_if_ValidatorSelectionMode:
  "(if b then r\<lparr>Config.ValidatorSelectionMode := v\<rparr> else r) =
     r\<lparr>Config.ValidatorSelectionMode := (if b then v else Config.ValidatorSelectionMode r)\<rparr>"
  by simp

lemma assign_if_Validators:
  "(if b then r\<lparr>Config.Validators := v\<rparr> else r) =
     r\<lparr>Config.Validators := (if b then v else Config.Validators r)\<rparr>"
  by simp

lemma assign_case_EmptyBlockPeriod:
  "(case x of Some v \<Rightarrow> r\<lparr>EmptyBlockPeriod := v\<rparr> | None \<Rightarrow> r) =
     r\<lparr>EmptyBlockPeriod := (case x of Some v \<Rightarrow> v | None \<Rightarrow> EmptyBlockPeriod r)\<rparr>"
  by (cases x) simp_all

lemma assign_case_MaxRequestTimeoutSeconds:
  "(case x of Some v \<Rightarrow> r\<lparr>Config.MaxRequestTimeoutSeconds := v\<rparr> | None \<Rightarrow> r) =
     r\<lparr>Config.MaxRequestTimeoutSeconds :=
         (case x of Some v \<Rightarrow> v | None \<Rightarrow> Config.MaxRequestTimeoutSeconds r)\<rparr>"
  by (cases x) simp_all

lemmas guarded_assign =
  assign_if_RequestTimeout assign_if_Epoch assign_if_BlockPeriod assign_if_BeneficiaryMode
  assign_if_BlockReward assign_if_MiningBeneficiary assign_if_ValidatorSelectionMode
  assign_if_Validators assign_case_EmptyBlockPeriod assign_case_MaxRequestTimeoutSeconds

lemma GetConfig_callback_overlay: "GetConfig_callback t c = overlay t c"
  unfolding GetConfig_callback_def overlay_def
  by (simp add: guarded_assign cong: if_cong option.case_cong)

lemma GetConfig_resolve_fold:
  "well_formed_transitions (Transitions c) \<Longrightarrow> GetConfig c (Some h) = Inr (resolve_fold c h)"
  by (simp add: GetConfig_def getTransitionValue_sorted GetConfig_callback_overlay resolve_fold_def)

lemma RequestTimeout_foldl:
  "RequestTimeout (foldl (\<lambda>a t. overlay t a) c ts) =
     latest_override (\<lambda>t. RequestTimeoutSeconds t \<noteq> 0) (\<lambda>t. RequestTimeoutSeconds t * 1000)
       (RequestTimeout c) ts"
  by (rule field_of_foldl) (simp add: overlay_def)

lemma Epoch_foldl:
  "Epoch (foldl (\<lambda>a t. overlay t a) c ts) =
     latest_override (\<lambda>t. EpochLength t \<noteq> 0) EpochLength (Epoch c) ts"
  by (rule field_of_foldl) (simp add: overlay_def)

lemma BlockPeriod_foldl:
  "BlockPeriod (foldl (\<lambda>a t. overlay t a) c ts) =
     latest_override (\<lambda>t. BlockPeriodSeconds t \<noteq> 0) BlockPeriodSeconds (BlockPeriod c) ts"
  by (rule field_of_foldl) (simp add: overlay_def)

lemma EmptyBlockPeriod_foldl:
  "EmptyBlockPeriod (foldl (\<lambda>a t. overlay t a) c ts) =
     latest_override (\<lambda>t. EmptyBlockPeriodSeconds t \<noteq> None) (\<lambda>t. the (EmptyBlockPeriodSeconds t))
       (EmptyBlockPeriod c) ts"
  by (rule field_of_foldl) (simp add: overlay_def split: option.splits)

lemma BeneficiaryMode_foldl:
  "Config.BeneficiaryMode (foldl (\<lambda>a t. overlay t a) c ts) =
     latest_override (\<lambda>t. Transition.BeneficiaryMode t \<noteq> None) Transition.BeneficiaryMode
       (Config.BeneficiaryMode c) ts"
  by (rule field_of_foldl) (simp add: overlay_def)

lemma BlockReward_foldl:
  "Config.BlockReward (foldl (\<lambda>a t. overlay t a) c ts) =
     latest_override (\<lambda>t. Transition.BlockReward t \<noteq> None) Transition.BlockReward
       (Config.BlockReward c) ts"
  by (rule field_of_foldl) (simp add: overlay_def)

lemma MiningBeneficiary_foldl:
  "Config.MiningBeneficiary (foldl (\<lambda>a t. overlay t a) c ts) =
     latest_override (\<lambda>t. Transition.MiningBeneficiary t \<noteq> None) Transition.MiningBeneficiary
       (Config.MiningBeneficiary c) ts"
  by (rule field_of_foldl) (simp add: overlay_def)

lemma ValidatorSelectionMode_foldl:
  "Config.ValidatorSelectionMode (foldl (\<lambda>a t. overlay t a) c ts) =
     latest_override (\<lambda>t. Transition.ValidatorSelectionMode t \<noteq> '''')
       (\<lambda>t. Some (Transition.ValidatorSelectionMode t)) (Config.ValidatorSelectionMode c) ts"
  by (rule field_of_foldl) (simp add: overlay_def)

lemma Validators_foldl:
  "Config.Validators (foldl (\<lambda>a t. overlay t a) c ts) =
     latest_override (\<lambda>t. Transition.Validators t \<noteq> []) Transition.Validators
       (Config.Validators c) ts"
  by (rule field_of_foldl) (simp add: overlay_def)

lemma MaxRequestTimeoutSeconds_foldl:
  "Config.MaxRequestTimeoutSeconds (foldl (\<lambda>a t. overlay t a) c ts) =
     latest_override (\<lambda>t. Transition.MaxRequestTimeoutSeconds t \<noteq> None)
       (\<lambda>t. the (Transition.MaxRequestTimeoutSeconds t)) (Config.MaxRequestTimeoutSeconds c) ts"
  by (rule field_of_foldl) (simp add: overlay_def split: option.splits)

lemma frame_foldl:
  "ProposerPolicy (foldl (\<lambda>a t. overlay t a) c ts) = ProposerPolicy c"
  "Ceil2Nby3Block (foldl (\<lambda>a t. overlay t a) c ts) = Ceil2Nby3Block c"
  "AllowedFutureBlockTime (foldl (\<lambda>a t. overlay t a) c ts) = AllowedFutureBlockTime c"
  "Client (foldl (\<lambda>a t. overlay t a) c ts) = Client c"
  "Transitions (foldl (\<lambda>a t. overlay t a) c ts) = Transitions c"
  by (rule frame_of_foldl, simp add: overlay_def)+

lemma example_config_well_formed: "well_formed_transitions (Transitions example_config)"
  by (simp add: example_config_def well_formed_transitions_def Config_zero_def
      Transition_zero_def)

text \<open>
  Claim C1. For a base configuration whose transition list is ascending by height and a
  target height \<open>h\<close>, \<^verbatim>\<open>GetConfig\<close> returns the left-to-right fold that starts from the base
  configuration and applies, in list order, every transition of height at most \<open>h\<close>. Each
  field of the result is that of the last such transition in which the field is present
  (non-zero \<^verbatim>\<open>uint64\<close>, non-nil pointer, non-empty string or list) and the base value when
  there is none; the fields no transition can name are those of the base configuration.
\<close>

theorem GetConfig_is_per_field_fold:
  assumes "well_formed_transitions (Transitions c)"
  shows "GetConfig c (Some h) = Inr (resolve_fold c h) \<and>
    RequestTimeout (resolve_fold c h) =
      latest_override (\<lambda>t. RequestTimeoutSeconds t \<noteq> 0) (\<lambda>t. RequestTimeoutSeconds t * 1000)
        (RequestTimeout c) (applicable h (Transitions c)) \<and>
    Epoch (resolve_fold c h) =
      latest_override (\<lambda>t. EpochLength t \<noteq> 0) EpochLength (Epoch c)
        (applicable h (Transitions c)) \<and>
    BlockPeriod (resolve_fold c h) =
      latest_override (\<lambda>t. BlockPeriodSeconds t \<noteq> 0) BlockPeriodSeconds (BlockPeriod c)
        (applicable h (Transitions c)) \<and>
    EmptyBlockPeriod (resolve_fold c h) =
      latest_override (\<lambda>t. EmptyBlockPeriodSeconds t \<noteq> None)
        (\<lambda>t. the (EmptyBlockPeriodSeconds t)) (EmptyBlockPeriod c)
        (applicable h (Transitions c)) \<and>
    Config.BeneficiaryMode (resolve_fold c h) =
      latest_override (\<lambda>t. Transition.BeneficiaryMode t \<noteq> None) Transition.BeneficiaryMode
        (Config.BeneficiaryMode c) (applicable h (Transitions c)) \<and>
    Config.BlockReward (resolve_fold c h) =
      latest_override (\<lambda>t. Transition.BlockReward t \<noteq> None) Transition.BlockReward
        (Config.BlockReward c) (applicable h (Transitions c)) \<and>
    Config.MiningBeneficiary (resolve_fold c h) =
      latest_override (\<lambda>t. Transition.MiningBeneficiary t \<noteq> None) Transition.MiningBeneficiary
        (Config.MiningBeneficiary c) (applicable h (Transitions c)) \<and>
    Config.ValidatorSelectionMode (resolve_fold c h) =
      latest_override (\<lambda>t. Transition.ValidatorSelectionMode t \<noteq> '''')
        (\<lambda>t. Some (Transition.ValidatorSelectionMode t)) (Config.ValidatorSelectionMode c)
        (applicable h (Transitions c)) \<and>
    Config.Validators (resolve_fold c h) =
      latest_override (\<lambda>t. Transition.Validators t \<noteq> []) Transition.Validators
        (Config.Validators c) (applicable h (Transitions c)) \<and>
    Config.MaxRequestTimeoutSeconds (resolve_fold c h) =
      latest_override (\<lambda>t. Transition.MaxRequestTimeoutSeconds t \<noteq> None)
        (\<lambda>t. the (Transition.MaxRequestTimeoutSeconds t)) (Config.MaxRequestTimeoutSeconds c)
        (applicable h (Transitions c)) \<and>
    ProposerPolicy (resolve_fold c h) = ProposerPolicy c \<and>
    Ceil2Nby3Block (resolve_fold c h) = Ceil2Nby3Block c \<and>
    AllowedFutureBlockTime (resolve_fold c h) = AllowedFutureBlockTime c \<and>
    Client (resolve_fold c h) = Client c \<and>
    Transitions (resolve_fold c h) = Transitions c"
  using assms
  by (simp only: GetConfig_resolve_fold resolve_fold_def RequestTimeout_foldl Epoch_foldl
      BlockPeriod_foldl EmptyBlockPeriod_foldl BeneficiaryMode_foldl BlockReward_foldl
      MiningBeneficiary_foldl ValidatorSelectionMode_foldl Validators_foldl
      MaxRequestTimeoutSeconds_foldl frame_foldl simp_thms)

theorem GetConfig_is_per_field_fold_witness:
  "well_formed_transitions (Transitions example_config) \<and>
   GetConfig example_config (Some 25) =
     Inr (example_config\<lparr>RequestTimeout := 3000, Epoch := 7, EmptyBlockPeriod := 0,
            Config.ValidatorSelectionMode := Some ''contract'', Config.Validators := [[3]]\<rparr>) \<and>
   Epoch (resolve_fold example_config 25) = 7"
proof -
  have wf: "well_formed_transitions (Transitions example_config)"
    by (rule example_config_well_formed)
  have "resolve_fold example_config 25 =
      example_config\<lparr>RequestTimeout := 3000, Epoch := 7, EmptyBlockPeriod := 0,
            Config.ValidatorSelectionMode := Some ''contract'', Config.Validators := [[3]]\<rparr>"
    by (simp add: resolve_fold_def applicable_def overlay_def example_config_def Config_zero_def
        Transition_zero_def)
  with wf GetConfig_is_per_field_fold [OF wf, of 25] show ?thesis by simp
qed

text \<open>
  Claim C2, as stated, fails at height 0 when the base validator list is empty: the
  source then falls through to the first transition, and a first transition at height 0
  gives its validators, where the claim has the empty list.
\<close>

theorem GetValidatorsAt_height_zero_counterexample:
  "GetValidatorsAt counterexample_config (Some 0) = Inr [[1]] \<and>
   GetValidatorsAt_claimed counterexample_config 0 = []"
  by (simp add: GetValidatorsAt_def GetValidatorsAt_claimed_def counterexample_config_def
      Config_zero_def Transition_zero_def)

text \<open>
  Claim C2, amended. For a configuration whose first transition, if there is one, has a
  height, and a non-nil height \<open>h\<close>: \<^verbatim>\<open>GetValidatorsAt\<close> returns the base validator list when
  \<open>h = 0\<close> and that list is not empty; in every other case, height 0 with an empty base
  list included, it looks at the first transition only and returns its validators when its
  height is exactly \<open>h\<close>, and the empty list otherwise. With transitions at heights 10 and
  20 naming \<open>[A]\<close> and \<open>[B]\<close>, the query at height 20 returns the empty list, not \<open>[B]\<close>.
\<close>

theorem GetValidatorsAt_first_transition_only:
  assumes "case Transitions c of [] \<Rightarrow> True | t # ts \<Rightarrow> Block t \<noteq> None"
  shows "GetValidatorsAt c (Some h) =
           Inr (if h = 0 \<and> Config.Validators c \<noteq> [] then Config.Validators c
                else first_transition_rule c h) \<and>
         GetValidatorsAt (two_transition_config A B) (Some 20) = Inr []"
proof -
  have general: "GetValidatorsAt c (Some h) =
           Inr (if h = 0 \<and> Config.Validators c \<noteq> [] then Config.Validators c
                else first_transition_rule c h)"
  proof (cases "Transitions c")
    case Nil
    then show ?thesis by (simp add: GetValidatorsAt_def first_transition_rule_def)
  next
    case (Cons t ts)
    with assms obtain b where "Block t = Some b" by auto
    with Cons show ?thesis by (simp add: GetValidatorsAt_def first_transition_rule_def)
  qed
  have scenario: "GetValidatorsAt (two_transition_config A B) (Some 20) = Inr []"
    by (simp add: GetValidatorsAt_def two_transition_config_def Config_zero_def
        Transition_zero_def)
  from general scenario show ?thesis by simp
qed

theorem GetValidatorsAt_first_transition_only_witness:
  "(case Transitions example_config of [] \<Rightarrow> True | t # ts \<Rightarrow> Block t \<noteq> None) \<and>
   GetValidatorsAt example_config (Some 0) = Inr [[1]] \<and>
   GetValidatorsAt example_config (Some 10) = Inr [[2]] \<and>
   GetValidatorsAt example_config (Some 20) = Inr [] \<and>
   GetValidatorsAt (two_transition_config [10] [11]) (Some 20) = Inr []"
proof -
  have h: "case Transitions example_config of [] \<Rightarrow> True | t # ts \<Rightarrow> Block t \<noteq> None"
    by (simp add: example_config_def Config_zero_def Transition_zero_def)
  from h GetValidatorsAt_first_transition_only [OF h, of 0 "[10]" "[11]"]
    GetValidatorsAt_first_transition_only [OF h, of 10 "[10]" "[11]"]
    GetValidatorsAt_first_transition_only [OF h, of 20 "[10]" "[11]"]
  show ?thesis
    by (simp add: first_transition_rule_def example_config_def Config_zero_def
        Transition_zero_def)
qed

text \<open>
  Claim C3. \<^verbatim>\<open>GetConfig\<close> turns a transition's \<^verbatim>\<open>RequestTimeoutSeconds\<close> into the resolved
  \<^verbatim>\<open>RequestTimeout\<close> by multiplying by 1000 (in \<^verbatim>\<open>uint64\<close> arithmetic) whenever it is not
  zero: the resolved value is 1000 times the seconds of the last applicable transition
  that names them, and the base value when none does. For a base configuration with
  \<^verbatim>\<open>RequestTimeout = 10000\<close> and \<^verbatim>\<open>Epoch = 30000\<close> and the single transition
  \<^verbatim>\<open>{Block: 100, RequestTimeoutSeconds: 5}\<close>, the resolved timeout is 10000 at height 50,
  5000 at height 100 and 5000 at height 1000.
\<close>

theorem GetConfig_RequestTimeout_milliseconds:
  "(well_formed_transitions (Transitions c) \<longrightarrow>
      request_timeout_of (GetConfig c (Some h)) =
        Inr (latest_override (\<lambda>t. RequestTimeoutSeconds t \<noteq> 0)
               (\<lambda>t. RequestTimeoutSeconds t * 1000) (RequestTimeout c)
               (applicable h (Transitions c)))) \<and>
   (RequestTimeout c = 10000 \<and> Epoch c = 30000 \<and> Transitions c = [t] \<and>
    Block t = Some 100 \<and> RequestTimeoutSeconds t = 5 \<longrightarrow>
      request_timeout_of (GetConfig c (Some 50)) = Inr 10000 \<and>
      request_timeout_of (GetConfig c (Some 100)) = Inr 5000 \<and>
      request_timeout_of (GetConfig c (Some 1000)) = Inr 5000)"
proof -
  have general: "request_timeout_of (GetConfig c (Some h)) =
        Inr (latest_override (\<lambda>t. RequestTimeoutSeconds t \<noteq> 0)
               (\<lambda>t. RequestTimeoutSeconds t * 1000) (RequestTimeout c)
               (applicable h (Transitions c)))"
    if "well_formed_transitions (Transitions c)" for c h
    using that
    by (simp add: request_timeout_of_def GetConfig_resolve_fold resolve_fold_def
        RequestTimeout_foldl)
  have scenario: "request_timeout_of (GetConfig c (Some 50)) = Inr 10000 \<and>
      request_timeout_of (GetConfig c (Some 100)) = Inr 5000 \<and>
      request_timeout_of (GetConfig c (Some 1000)) = Inr 5000"
    if s: "RequestTimeout c = 10000" "Transitions c = [t]" "Block t = Some 100"
      "RequestTimeoutSeconds t = 5"
  proof -
    have wf: "well_formed_transitions (Transitions c)"
      using s by (simp add: well_formed_transitions_def)
    show ?thesis
      using s by (simp add: general [OF wf] applicable_def latest_override_def)
  qed
  from general scenario show ?thesis by blast
qed

theorem GetConfig_RequestTimeout_milliseconds_witness:
  "well_formed_transitions (Transitions scenario_config) \<and>
   RequestTimeout scenario_config = 10000 \<and> Epoch scenario_config = 30000 \<and>
   Transitions scenario_config = [Transition_zero\<lparr>Block := Some 100, RequestTimeoutSeconds := 5\<rparr>] \<and>
   request_timeout_of (GetConfig scenario_config (Some 50)) = Inr 10000 \<and>
   request_timeout_of (GetConfig scenario_config (Some 100)) = Inr 5000 \<and>
   request_timeout_of (GetConfig scenario_config (Some 1000)) = Inr 5000 \<and>
   request_timeout_of (GetConfig example_config (Some 25)) = Inr 3000"
proof -
  have wf: "well_formed_transitions (Transitions scenario_config)"
    by (simp add: scenario_config_def well_formed_transitions_def Config_zero_def
        Transition_zero_def)
  have sc: "RequestTimeout scenario_config = 10000" "Epoch scenario_config = 30000"
    "Transitions scenario_config =
       [Transition_zero\<lparr>Block := Some 100, RequestTimeoutSeconds := 5\<rparr>]"
    by (simp_all add: scenario_config_def Config_zero_def)
  have t: "Block (Transition_zero\<lparr>Block := Some 100, RequestTimeoutSeconds := 5\<rparr>) = Some 100"
    "RequestTimeoutSeconds (Transition_zero\<lparr>Block := Some 100, RequestTimeoutSeconds := 5\<rparr>) = 5"
    by simp_all
  from wf sc t example_config_well_formed
    GetConfig_RequestTimeout_milliseconds [of scenario_config 50
      "Transition_zero\<lparr>Block := Some 100, RequestTimeoutSeconds := 5\<rparr>"]
    GetConfig_RequestTimeout_milliseconds [of example_config 25 Transition_zero]
  show ?thesis
    by (simp add: applicable_def latest_override_def example_config_def Config_zero_def
        Transition_zero_def)
qed

text \<open>
  Claim C4. For a configuration with an ascending transition list and a non-nil height
  \<open>h\<close>, \<^verbatim>\<open>Get2FPlus1Enabled\<close> returns without a panic: its result is the
  \<^verbatim>\<open>TwoFPlusOneEnabled\<close> value of the last transition of height at most \<open>h\<close> whose flag is
  not nil, and \<open>False\<close> when there is no such transition (as with an empty list).
\<close>

theorem Get2FPlus1Enabled_latest_flag:
  assumes "well_formed_transitions (Transitions c)"
  shows "Get2FPlus1Enabled c (Some h) =
           Inr (latest_override (\<lambda>t. TwoFPlusOneEnabled t \<noteq> None)
                  (\<lambda>t. the (TwoFPlusOneEnabled t)) False (applicable h (Transitions c)))"
proof -
  have cb: "(\<lambda>a t. case TwoFPlusOneEnabled t of Some b \<Rightarrow> b | None \<Rightarrow> a) =
            (\<lambda>a t. if TwoFPlusOneEnabled t \<noteq> None then the (TwoFPlusOneEnabled t) else a)"
    by (auto simp: fun_eq_iff split: option.splits)
  show ?thesis
    using assms
    by (simp add: Get2FPlus1Enabled_def getTransitionValue_sorted cb foldl_overwrite)
qed

theorem Get2FPlus1Enabled_latest_flag_witness:
  "well_formed_transitions (Transitions example_config) \<and>
   Get2FPlus1Enabled example_config (Some 5) = Inr False \<and>
   Get2FPlus1Enabled example_config (Some 15) = Inr True \<and>
   Get2FPlus1Enabled example_config (Some 20) = Inr False \<and>
   Get2FPlus1Enabled example_config (Some 99) = Inr False \<and>
   Get2FPlus1Enabled Config_zero (Some 99) = Inr False"
proof -
  let ?flag = "\<lambda>c h. latest_override (\<lambda>t. TwoFPlusOneEnabled t \<noteq> None)
                  (\<lambda>t. the (TwoFPlusOneEnabled t)) False (applicable h (Transitions c))"
  have wf0: "well_formed_transitions (Transitions Config_zero)"
    by (simp add: well_formed_transitions_def Config_zero_def)
  have v: "?flag example_config 5 = False" "?flag example_config 15 = True"
    "?flag example_config 20 = False" "?flag example_config 99 = False"
    "?flag Config_zero 99 = False"
    by (simp_all add: applicable_def latest_override_def example_config_def Config_zero_def
        Transition_zero_def del: not_None_eq)
  show ?thesis
    using example_config_well_formed
      Get2FPlus1Enabled_latest_flag [OF example_config_well_formed, of 5]
      Get2FPlus1Enabled_latest_flag [OF example_config_well_formed, of 15]
      Get2FPlus1Enabled_latest_flag [OF example_config_well_formed, of 20]
      Get2FPlus1Enabled_latest_flag [OF example_config_well_formed, of 99]
      Get2FPlus1Enabled_latest_flag [OF wf0, of 99]
    by (simp only: v simp_thms)
qed

text \<open>
  Claim C10. \<^verbatim>\<open>GetValidatorsAt\<close> panics on a nil height, whatever the configuration: it
  calls \<^verbatim>\<open>blockNumber.Cmp\<close> before its nil test. \<^verbatim>\<open>GetConfig\<close>,
  \<^verbatim>\<open>GetValidatorSelectionMode\<close> and \<^verbatim>\<open>Get2FPlus1Enabled\<close> return on a nil height, with the
  base configuration, the base mode (or the block-header mode) and \<open>False\<close>.
\<close>

theorem GetValidatorsAt_panics_on_nil_height:
  "GetValidatorsAt c None = Inl NilPointerDereference \<and>
   GetConfig c None = Inr c \<and>
   GetValidatorSelectionMode c None =
     Inr (case Config.ValidatorSelectionMode c of Some m \<Rightarrow> m | None \<Rightarrow> BlockHeaderMode) \<and>
   Get2FPlus1Enabled c None = Inr False"
  by (simp add: GetValidatorsAt_def GetConfig_def GetValidatorSelectionMode_def
      Get2FPlus1Enabled_def getTransitionValue_nil)

theorem GetValidatorsAt_panics_on_nil_height_witness:
  "GetValidatorsAt example_config None = Inl NilPointerDereference \<and>
   GetConfig example_config None = Inr example_config \<and>
   GetValidatorSelectionMode example_config None = Inr ''blockheader'' \<and>
   Get2FPlus1Enabled example_config None = Inr False"
proof -
  have mode: "Config.ValidatorSelectionMode example_config = None"
    by (simp add: example_config_def Config_zero_def)
  show ?thesis
    using GetValidatorsAt_panics_on_nil_height [of example_config]
    by (simp add: mode BlockHeaderMode_def)
qed

section \<open>Properties of the view ordering\<close>

lemma View_Cmp_value:
  assumes "non_nil_view v" "non_nil_view y"
  shows "View_Cmp v y =
           Inr (if lex_less (view_key v) (view_key y) then - 1
                else if view_key v = view_key y then 0 else 1)"
  using assms
  by (auto simp: non_nil_view_def View_Cmp_def lex_less_def view_key_def)

text \<open>
  Claim C7. On views whose fields are not nil, \<^verbatim>\<open>View.Cmp\<close> returns an integer that is
  negative exactly when the pair (sequence, round) of the first view is lexicographically
  below that of the second, zero exactly when the two pairs are equal, and positive
  exactly when it is above. So \<^verbatim>\<open>Cmp(v, v)\<close> is 0, \<^verbatim>\<open>Cmp(y, v)\<close> is the negation of
  \<^verbatim>\<open>Cmp(v, y)\<close>, and both the strict and the non-strict order are transitive.
\<close>

theorem View_Cmp_strict_total_order:
  assumes "non_nil_view v" "non_nil_view y" "non_nil_view z"
  shows "(\<exists>n. View_Cmp v y = Inr n \<and>
            (n < 0 \<longleftrightarrow> lex_less (view_key v) (view_key y)) \<and>
            (n = 0 \<longleftrightarrow> view_key v = view_key y) \<and>
            (n > 0 \<longleftrightarrow> lex_less (view_key y) (view_key v))) \<and>
         View_Cmp v v = Inr 0 \<and>
         (\<forall>n. View_Cmp v y = Inr n \<longrightarrow> View_Cmp y v = Inr (- n)) \<and>
         (\<forall>m n. View_Cmp v y = Inr m \<and> View_Cmp y z = Inr n \<and> m < 0 \<and> n < 0 \<longrightarrow>
            (\<exists>k. View_Cmp v z = Inr k \<and> k < 0)) \<and>
         (\<forall>m n. View_Cmp v y = Inr m \<and> View_Cmp y z = Inr n \<and> m \<le> 0 \<and> n \<le> 0 \<longrightarrow>
            (\<exists>k. View_Cmp v z = Inr k \<and> k \<le> 0))"
proof -
  have vy: "View_Cmp v y =
      Inr (if lex_less (view_key v) (view_key y) then - 1
           else if view_key v = view_key y then 0 else 1)"
    by (rule View_Cmp_value [OF assms(1) assms(2)])
  have yv: "View_Cmp y v =
      Inr (if lex_less (view_key y) (view_key v) then - 1
           else if view_key y = view_key v then 0 else 1)"
    by (rule View_Cmp_value [OF assms(2) assms(1)])
  have yz: "View_Cmp y z =
      Inr (if lex_less (view_key y) (view_key z) then - 1
           else if view_key y = view_key z then 0 else 1)"
    by (rule View_Cmp_value [OF assms(2) assms(3)])
  have vz: "View_Cmp v z =
      Inr (if lex_less (view_key v) (view_key z) then - 1
           else if view_key v = view_key z then 0 else 1)"
    by (rule View_Cmp_value [OF assms(1) assms(3)])
  have irrefl: "\<not> lex_less a a" for a
    by (simp add: lex_less_def)
  have asym: "lex_less a b \<Longrightarrow> \<not> lex_less b a" for a b
    by (auto simp: lex_less_def)
  have total: "lex_less a b \<or> a = b \<or> lex_less b a" for a b
    by (auto simp: lex_less_def prod_eq_iff)
  have trans: "lex_less a b \<Longrightarrow> lex_less b c \<Longrightarrow> lex_less a c" for a b c
    by (auto simp: lex_less_def)
  have c1: "\<exists>n. View_Cmp v y = Inr n \<and>
            (n < 0 \<longleftrightarrow> lex_less (view_key v) (view_key y)) \<and>
            (n = 0 \<longleftrightarrow> view_key v = view_key y) \<and>
            (n > 0 \<longleftrightarrow> lex_less (view_key y) (view_key v))"
    using irrefl asym [of "view_key v" "view_key y"] total [of "view_key v" "view_key y"]
    by (auto simp: vy)
  have c2: "View_Cmp v v = Inr 0"
    using View_Cmp_value [OF assms(1) assms(1)] irrefl by simp
  have c3: "\<forall>n. View_Cmp v y = Inr n \<longrightarrow> View_Cmp y v = Inr (- n)"
    using irrefl asym [of "view_key v" "view_key y"] total [of "view_key v" "view_key y"]
    by (auto simp: vy yv)
  have c4: "\<forall>m n. View_Cmp v y = Inr m \<and> View_Cmp y z = Inr n \<and> m < 0 \<and> n < 0 \<longrightarrow>
            (\<exists>k. View_Cmp v z = Inr k \<and> k < 0)"
    using trans [of "view_key v" "view_key y" "view_key z"]
    by (auto simp: vy yz vz split: if_splits)
  have c5: "\<forall>m n. View_Cmp v y = Inr m \<and> View_Cmp y z = Inr n \<and> m \<le> 0 \<and> n \<le> 0 \<longrightarrow>
            (\<exists>k. View_Cmp v z = Inr k \<and> k \<le> 0)"
    using trans [of "view_key v" "view_key y" "view_key z"]
    by (auto simp: vy yz vz split: if_splits)
  from c1 c2 c3 c4 c5 show ?thesis by blast
qed

theorem View_Cmp_strict_total_order_witness:
  "non_nil_view \<lparr>Round = Some 2, Sequence = Some 5\<rparr> \<and>
   non_nil_view \<lparr>Round = Some 0, Sequence = Some 6\<rparr> \<and>
   non_nil_view \<lparr>Round = Some 1, Sequence = Some 6\<rparr> \<and>
   View_Cmp \<lparr>Round = Some 2, Sequence = Some 5\<rparr> \<lparr>Round = Some 0, Sequence = Some 6\<rparr> = Inr (- 1) \<and>
   View_Cmp \<lparr>Round = Some 0, Sequence = Some 6\<rparr> \<lparr>Round = Some 2, Sequence = Some 5\<rparr> = Inr 1 \<and>
   View_Cmp \<lparr>Round = Some 0, Sequence = Some 6\<rparr> \<lparr>Round = Some 1, Sequence = Some 6\<rparr> = Inr (- 1) \<and>
   View_Cmp \<lparr>Round = Some 2, Sequence = Some 5\<rparr> \<lparr>Round = Some 1, Sequence = Some 6\<rparr> = Inr (- 1) \<and>
   View_Cmp \<lparr>Round = Some 2, Sequence = Some 5\<rparr> \<lparr>Round = Some 2, Sequence = Some 5\<rparr> = Inr 0"
proof -
  have nn: "non_nil_view \<lparr>Round = Some 2, Sequence = Some 5\<rparr>"
    "non_nil_view \<lparr>Round = Some 0, Sequence = Some 6\<rparr>"
    "non_nil_view \<lparr>Round = Some 1, Sequence = Some 6\<rparr>"
    by (simp_all add: non_nil_view_def)
  from View_Cmp_strict_total_order [OF nn] nn show ?thesis
    by (simp add: View_Cmp_def)
qed

section \<open>Properties of the proposer policy\<close>

subsection \<open>The insertion sort meets the contract of sort.Sort\<close>

declare insertion_inner.simps [simp del] insertion_outer.simps [simp del]

lemma insertion_inner_sink:
  "validators data = pre @ x # post \<Longrightarrow>
   insertion_inner data (length pre) =
     data\<lparr>validators := rev (sink (by_func data) x (rev pre)) @ post\<rparr>"
proof (induction pre arbitrary: data post rule: rev_induct)
  case Nil
  then show ?case by (simp add: insertion_inner.simps [of data 0])
next
  case (snoc y pre)
  let ?j = "length (pre @ [y])"
  have lt_j: "Less data ?j (?j - 1) = by_func data x y"
    using snoc.prems by (simp add: Less_def nth_append)
  show ?case
  proof (cases "by_func data x y")
    case True
    have sw: "validators (Swap data ?j (?j - 1)) = pre @ x # (y # post)"
      using snoc.prems by (simp add: Swap_def nth_append list_update_append)
    have "insertion_inner data ?j = insertion_inner (Swap data ?j (?j - 1)) (length pre)"
      using True lt_j by (subst insertion_inner.simps) simp
    also have "\<dots> = (Swap data ?j (?j - 1))
        \<lparr>validators := rev (sink (by_func (Swap data ?j (?j - 1))) x (rev pre)) @ y # post\<rparr>"
      by (rule snoc.IH [OF sw])
    finally show ?thesis using True by (simp add: Swap_def)
  next
    case False
    then have "insertion_inner data ?j = data"
      using lt_j by (subst insertion_inner.simps) simp
    then show ?thesis using False snoc.prems by simp
  qed
qed

lemma mset_sink: "mset (sink lt x rs) = add_mset x (mset rs)"
  by (induction rs) simp_all

lemma length_sink: "length (sink lt x rs) = Suc (length rs)"
  by (induction rs) simp_all

lemma set_sink: "set (sink lt x rs) = insert x (set rs)"
  by (induction rs) auto

lemma sorted_sink:
  assumes "strict_weak_order lt" "sorted_wrt (\<lambda>a b. \<not> lt a b) rs"
  shows "sorted_wrt (\<lambda>a b. \<not> lt a b) (sink lt x rs)"
  using assms(2)
proof (induction rs)
  case Nil
  then show ?case by simp
next
  case (Cons y rs)
  have irrefl: "\<not> lt a a" and trans: "lt a b \<Longrightarrow> lt b c \<Longrightarrow> lt a c"
    and ntrans: "\<not> lt a b \<Longrightarrow> \<not> lt b c \<Longrightarrow> \<not> lt a c" for a b c
    using assms(1) unfolding strict_weak_order_def by blast+
  show ?case
  proof (cases "lt x y")
    case True
    have "\<not> lt y x" using True trans irrefl by blast
    with True Cons show ?thesis by (auto simp: set_sink)
  next
    case False
    have "\<not> lt x z" if "z \<in> set rs" for z
      using Cons.prems that False ntrans by auto
    with False Cons.prems show ?thesis by auto
  qed
qed

lemma insertion_inner_step:
  assumes "i < length (validators data)"
  shows "validators (insertion_inner data i) =
           rev (sink (by_func data) (validators data ! i) (rev (take i (validators data)))) @
           drop (Suc i) (validators data)"
    and "by_func (insertion_inner data i) = by_func data"
proof -
  let ?xs = "validators data"
  have split: "?xs = take i ?xs @ ?xs ! i # drop (Suc i) ?xs"
    using assms by (simp add: id_take_nth_drop)
  have len: "length (take i ?xs) = i"
    using assms by simp
  from insertion_inner_sink [OF split] len
  have eq: "insertion_inner data i =
      data\<lparr>validators := rev (sink (by_func data) (?xs ! i) (rev (take i ?xs))) @ drop (Suc i) ?xs\<rparr>"
    by simp
  show "validators (insertion_inner data i) =
           rev (sink (by_func data) (?xs ! i) (rev (take i ?xs))) @ drop (Suc i) ?xs"
    by (subst eq) simp
  show "by_func (insertion_inner data i) = by_func data"
    by (subst eq) simp
qed

lemma insertion_inner_mset:
  assumes "i < length (validators data)"
  shows "mset (validators (insertion_inner data i)) = mset (validators data)"
proof -
  let ?xs = "validators data"
  have "mset (validators (insertion_inner data i)) =
      add_mset (?xs ! i) (mset (take i ?xs)) + mset (drop (Suc i) ?xs)"
    by (simp add: insertion_inner_step(1) [OF assms] mset_sink)
  also have "\<dots> = mset (take i ?xs @ ?xs ! i # drop (Suc i) ?xs)" by simp
  also have "\<dots> = mset ?xs" using assms by (simp add: id_take_nth_drop [symmetric])
  finally show ?thesis .
qed

lemma insertion_inner_length:
  "i < length (validators data) \<Longrightarrow>
   length (validators (insertion_inner data i)) = length (validators data)"
  using insertion_inner_mset [of i data] by (metis size_mset)

lemma insertion_outer_done: "\<not> i < n \<Longrightarrow> insertion_outer data i n = data"
  by (subst insertion_outer.simps) simp

lemma insertion_outer_step:
  "i < n \<Longrightarrow> insertion_outer data i n = insertion_outer (insertion_inner data i) (i + 1) n"
  by (subst insertion_outer.simps) simp

lemma insertion_outer_mset:
  "n \<le> length (validators data) \<Longrightarrow>
   mset (validators (insertion_outer data i n)) = mset (validators data)"
proof (induction data i n rule: insertion_outer.induct)
  case (1 data i n)
  show ?case
  proof (cases "i < n")
    case False
    then show ?thesis by (simp add: insertion_outer_done)
  next
    case True
    then have i: "i < length (validators data)" using "1.prems" by simp
    have "n \<le> length (validators (insertion_inner data i))"
      using "1.prems" by (simp add: insertion_inner_length [OF i])
    from "1.IH" [OF True this] show ?thesis
      using True by (simp add: insertion_outer_step insertion_inner_mset [OF i])
  qed
qed

lemma mset_By_Sort [simp]: "mset (By_Sort lt xs) = mset xs"
  by (simp add: By_Sort_def sort_Sort_def Len_def insertion_outer_mset)

lemma insertion_outer_sorted:
  "strict_weak_order (by_func data) \<Longrightarrow> n = length (validators data) \<Longrightarrow> i \<le> n \<Longrightarrow>
   sorted_by (by_func data) (take i (validators data)) \<Longrightarrow>
   sorted_by (by_func data) (validators (insertion_outer data i n)) \<and>
   mset (validators (insertion_outer data i n)) = mset (validators data)"
proof (induction data i n rule: insertion_outer.induct)
  case (1 data i n)
  let ?xs = "validators data"
  show ?case
  proof (cases "i < n")
    case False
    with "1.prems" have "i = length ?xs" by simp
    with "1.prems" False show ?thesis
      by (simp add: insertion_outer_done)
  next
    case True
    let ?d = "insertion_inner data i"
    have i: "i < length ?xs" using True "1.prems" by simp
    note step = insertion_inner_step [OF i]
    have split: "?xs = take i ?xs @ ?xs ! i # drop (Suc i) ?xs"
      using i by (simp add: id_take_nth_drop)
    have by_eq: "by_func ?d = by_func data" by (rule step(2))
    have len: "length (validators ?d) = length ?xs"
      using i by (simp add: step(1) length_sink)
    have ms: "mset (validators ?d) = mset ?xs"
    proof -
      have "mset (validators ?d) =
          add_mset (?xs ! i) (mset (take i ?xs)) + mset (drop (Suc i) ?xs)"
        by (simp add: step(1) mset_sink)
      also have "\<dots> = mset (take i ?xs @ ?xs ! i # drop (Suc i) ?xs)" by simp
      also have "\<dots> = mset ?xs" using split by simp
      finally show ?thesis .
    qed
    have tk: "take (Suc i) (validators ?d) = rev (sink (by_func data) (?xs ! i) (rev (take i ?xs)))"
    proof -
      have "length (rev (sink (by_func data) (?xs ! i) (rev (take i ?xs)))) = Suc i"
        using i by (simp add: length_sink)
      then show ?thesis by (simp add: step(1))
    qed
    have "sorted_wrt (\<lambda>a b. \<not> by_func data a b) (rev (take i ?xs))"
      using "1.prems"(4) by (simp add: sorted_by_def sorted_wrt_rev)
    from sorted_sink [OF "1.prems"(1) this, of "?xs ! i"]
    have srt: "sorted_by (by_func ?d) (take (i + 1) (validators ?d))"
      by (simp add: tk by_eq sorted_by_def sorted_wrt_rev)
    have swo: "strict_weak_order (by_func ?d)" using "1.prems"(1) by (simp add: by_eq)
    have n: "n = length (validators ?d)" using "1.prems"(2) len by simp
    have "i + 1 \<le> n" using True by simp
    from "1.IH" [OF True swo n this srt]
    have "sorted_by (by_func data) (validators (insertion_outer ?d (i + 1) n)) \<and>
          mset (validators (insertion_outer ?d (i + 1) n)) = mset ?xs"
      by (simp add: by_eq ms)
    then show ?thesis using True by (simp add: insertion_outer_step)
  qed
qed

lemma By_Sort_sorted:
  assumes "strict_weak_order lt"
  shows "sorted_by lt (By_Sort lt xs)" and "mset (By_Sort lt xs) = mset xs"
proof -
  let ?data = "\<lparr>validators = xs, by_func = lt\<rparr>"
  have both: "sorted_by lt (By_Sort lt xs) \<and> mset (By_Sort lt xs) = mset xs"
  proof (cases xs)
    case Nil
    then show ?thesis
      by (simp add: By_Sort_def sort_Sort_def Len_def insertion_outer_done sorted_by_def)
  next
    case (Cons x xs')
    have "sorted_by (by_func ?data) (take 1 (validators ?data))"
      using Cons by (simp add: sorted_by_def)
    moreover have "1 \<le> length (validators ?data)" using Cons by simp
    ultimately show ?thesis
      using insertion_outer_sorted [of ?data "length (validators ?data)" 1] assms
      by (simp add: By_Sort_def sort_Sort_def Len_def)
  qed
  then show "sorted_by lt (By_Sort lt xs)" and "mset (By_Sort lt xs) = mset xs" by simp_all
qed

subsection \<open>The pass of Use over the registry\<close>

lemma SortValidators_policy [simp]: "policy (SortValidators r w) = policy w"
  by (simp add: SortValidators_def)

lemma Use_loop_policy [simp]: "policy (Use_loop rs w) = policy w"
  by (induction rs arbitrary: w) simp_all

lemma Use_loop_members:
  assumes P: "\<And>xs. P (By_Sort (By (policy w)) xs)"
  shows "r \<in> set rs \<or> P (members w r) \<Longrightarrow> P (members (Use_loop rs w) r)"
  using P
proof (induction rs arbitrary: w)
  case Nil
  then show ?case by simp
next
  case (Cons a rs)
  have "r \<in> set rs \<or> P (members (SortValidators a w) r)"
    using Cons.prems by (auto simp: SortValidators_def)
  moreover have "\<And>xs. P (By_Sort (By (policy (SortValidators a w))) xs)"
    using Cons.prems(2) by simp
  ultimately show ?case using Cons.IH [of "SortValidators a w"] by simp
qed

lemma Use_loop_mset: "mset (members (Use_loop rs w) r) = mset (members w r)"
  by (induction rs arbitrary: w) (simp_all add: SortValidators_def)

lemma Use_loop_frame: "r \<notin> set rs \<Longrightarrow> members (Use_loop rs w) r = members w r"
  by (induction rs arbitrary: w) (simp_all add: SortValidators_def)

lemma nat_less_strict_weak_order: "strict_weak_order ((<) :: nat \<Rightarrow> nat \<Rightarrow> bool)"
  by (auto simp: strict_weak_order_def)

text \<open>
  Run alone, the steps of each method have the effect of the method: the step semantics
  and the functions above describe the same code.
\<close>

lemma Use_body_run:
  "run (replicate (Suc (length rs)) 0) ([Use_body rs], w) = Some ([Returned], Use_loop rs w)"
  by (induction rs arbitrary: w) simp_all

lemma Use_run_alone:
  "run (replicate (length (registry (policy w)) + 3) 0) ([Use_assign v], w) =
     Some ([Returned], Use v w)"
proof -
  let ?w1 = "w\<lparr>policy := (policy w)\<lparr>By := v\<rparr>\<rparr>"
  let ?rs = "registry (policy w)"
  have "run (replicate (length ?rs + 3) 0) ([Use_assign v], w) =
        run (replicate (Suc (length ?rs)) 0) ([Use_body ?rs], ?w1)"
    by (simp add: numeral_3_eq_3 cong: option.case_cong)
  also have "\<dots> = Some ([Returned], Use_loop ?rs ?w1)"
    by (rule Use_body_run)
  finally show ?thesis by (simp add: Use_def Let_def)
qed

lemma RegisterValidatorSet_run_alone:
  "run [0, 0, 0] ([Register_Lock valSet], w) =
     map_option (\<lambda>w'. ([Returned], w')) (RegisterValidatorSet valSet w)"
  by (simp add: RegisterValidatorSet_def Let_def)

lemma ClearRegistry_run_alone:
  "run [0, 0, 0] ([Clear_Lock], w) = map_option (\<lambda>w'. ([Returned], w')) (ClearRegistry w)"
  by (simp add: ClearRegistry_def Let_def)

text \<open>
  Claim C5. A caller of \<^verbatim>\<open>Use(f)\<close> that runs alone returns, after the assignment and one
  pass over the registry. Then \<^verbatim>\<open>By\<close> of the policy is \<open>f\<close> and the registry is what it
  was; every set has the members it had, in some order, and a set that is not registered
  has them in the order it had. The pass has reached every registered set: for a
  comparison \<open>f\<close> that is a strict weak order, the member list of every set of the registry
  is sorted for \<open>f\<close>.
\<close>

theorem Use_resorts_every_registered_set:
  "run (replicate (length (registry (policy w)) + 3) 0) ([Use_assign f], w) =
     Some ([Returned], Use f w) \<and>
   By (policy (Use f w)) = f \<and>
   registry (policy (Use f w)) = registry (policy w) \<and>
   (\<forall>r. mset (members (Use f w) r) = mset (members w r)) \<and>
   (\<forall>r. r \<notin> set (registry (policy w)) \<longrightarrow> members (Use f w) r = members w r) \<and>
   (strict_weak_order f \<longrightarrow>
      (\<forall>r \<in> set (registry (policy w)). sorted_by f (members (Use f w) r)))"
proof -
  let ?w1 = "w\<lparr>policy := (policy w)\<lparr>By := f\<rparr>\<rparr>"
  have use: "Use f w = Use_loop (registry (policy w)) ?w1"
    by (simp add: Use_def Let_def)
  have srt: "sorted_by f (members (Use f w) r)"
    if swo: "strict_weak_order f" and r: "r \<in> set (registry (policy w))" for r
  proof -
    have "\<And>xs. sorted_by f (By_Sort (By (policy ?w1)) xs)"
      using By_Sort_sorted(1) [OF swo] by simp
    from Use_loop_members [where P = "sorted_by f", OF this] r
    show ?thesis unfolding use by blast
  qed
  have ms: "mset (members (Use f w) r) = mset (members w r)" for r
    by (simp add: use Use_loop_mset)
  have frame: "members (Use f w) r = members w r" if "r \<notin> set (registry (policy w))" for r
    using that by (simp add: use Use_loop_frame)
  have pol: "By (policy (Use f w)) = f" "registry (policy (Use f w)) = registry (policy w)"
    by (simp_all add: use)
  from srt ms frame pol Use_run_alone [of w f] show ?thesis by blast
qed

theorem Use_resorts_every_registered_set_witness:
  "strict_weak_order ((<) :: nat \<Rightarrow> nat \<Rightarrow> bool) \<and>
   registry (policy two_set_world) = [0, 1] \<and>
   run [0, 0, 0, 0, 0] ([Use_assign (<)], two_set_world) =
     Some ([Returned], Use (<) two_set_world) \<and>
   By (policy (Use (<) two_set_world)) = (<) \<and>
   members (Use (<) two_set_world) 0 = [1, 2, 3] \<and>
   members (Use (<) two_set_world) 1 = [4, 5] \<and>
   members (Use (<) two_set_world) 2 = [9, 8] \<and>
   sorted_by (<) (members (Use (<) two_set_world) 0) \<and>
   sorted_by (<) (members (Use (<) two_set_world) 1)"
proof -
  have reg: "registry (policy two_set_world) = [0, 1]"
    by (simp add: two_set_world_def)
  have sched: "replicate (length (registry (policy two_set_world)) + 3) (0::nat) = [0, 0, 0, 0, 0]"
    by (simp add: reg numeral_eq_Suc)
  have ev: "members (Use (<) two_set_world) 0 = [1, 2, 3]"
    "members (Use (<) two_set_world) 1 = [4, 5]"
    "members (Use (<) two_set_world) 2 = [9, 8]"
    by (simp_all add: two_set_world_def Use_def SortValidators_def By_Sort_def sort_Sort_def
        Len_def insertion_outer.simps insertion_inner.simps Less_def Swap_def)
  note inst = Use_resorts_every_registered_set [of two_set_world "(<)"]
  have ran: "run [0, 0, 0, 0, 0] ([Use_assign (<)], two_set_world) =
     Some ([Returned], Use (<) two_set_world)"
    using inst [THEN conjunct1] by (simp only: sched)
  have by_f: "By (policy (Use (<) two_set_world)) = ((<) :: nat \<Rightarrow> nat \<Rightarrow> bool)"
    using inst by blast
  from inst nat_less_strict_weak_order
  have "sorted_by (<) (members (Use (<) two_set_world) 0) \<and>
        sorted_by (<) (members (Use (<) two_set_world) 1)"
    by (simp add: reg)
  with nat_less_strict_weak_order reg ev ran by_f show ?thesis by simp
qed

subsection \<open>The registry mutex\<close>

text \<open>
  \<^verbatim>\<open>RegisterValidatorSet\<close> and \<^verbatim>\<open>ClearRegistry\<close> exclude each other: whatever the
  schedule, the mutex is locked exactly when one caller is between its \<^verbatim>\<open>Lock\<close> and its
  \<^verbatim>\<open>Unlock\<close>, so no two callers are there at once.
\<close>

lemma holders_update:
  "t < length pcs \<Longrightarrow>
   holders (pcs[t := pc']) + (if holds_registryMU (pcs ! t) then 1 else 0) =
     holders pcs + (if holds_registryMU pc' then 1 else 0)"
proof (induction pcs arbitrary: t)
  case Nil
  then show ?case by simp
next
  case (Cons a pcs)
  then show ?case by (cases t) (auto simp: holders_def)
qed

lemma step_lock_consistent:
  assumes "lock_consistent (pcs, w)" "t < length pcs" "step (pcs ! t) w = Some (pc', w')"
  shows "lock_consistent (pcs[t := pc'], w')"
proof -
  note upd = holders_update [OF assms(2), of pc']
  show ?thesis
    using assms(1,3) upd
    by (cases "(pcs ! t, w)" rule: step.cases)
       (auto simp: lock_consistent_def SortValidators_def split: if_splits)
qed

lemma run_lock_consistent:
  "lock_consistent cfg \<Longrightarrow> run schedule cfg = Some cfg' \<Longrightarrow> lock_consistent cfg'"
proof (induction schedule arbitrary: cfg)
  case Nil
  then show ?case by simp
next
  case (Cons t schedule)
  obtain pcs w where cfg: "cfg = (pcs, w)" by (cases cfg)
  from Cons.prems(2) cfg have t: "t < length pcs"
    by (auto split: if_splits)
  from Cons.prems(2) cfg t obtain pc' w' where
    st: "step (pcs ! t) w = Some (pc', w')" and rest: "run schedule (pcs[t := pc'], w') = Some cfg'"
    by (auto split: option.splits)
  from step_lock_consistent [OF _ t st] Cons.prems(1) cfg
  have "lock_consistent (pcs[t := pc'], w')" by simp
  from Cons.IH [OF this rest] show ?case .
qed

text \<open>
  \<^verbatim>\<open>Use\<close> takes no part in this: each of its steps can be taken whatever the state of the
  mutex, and none of them locks it.
\<close>

lemma Use_never_locks:
  "pc = Use_assign v \<or> in_resort_pass pc \<Longrightarrow>
   \<exists>pc' w'. step pc w = Some (pc', w') \<and> registryMU (policy w') = registryMU (policy w) \<and>
     \<not> holds_registryMU pc'"
  by (cases "(pc, w)" rule: step.cases) (auto simp: SortValidators_def)

text \<open>
  Claim C6 has every registry operation, the pass of \<^verbatim>\<open>Use\<close> included, acquire and hold
  \<^verbatim>\<open>registryMU\<close>. The source locks in \<^verbatim>\<open>RegisterValidatorSet\<close> and \<^verbatim>\<open>ClearRegistry\<close> only.
  With caller 0 in \<^verbatim>\<open>RegisterValidatorSet\<close> and caller 1 in \<^verbatim>\<open>Use\<close>: after caller 0 has
  locked the mutex, caller 1 runs all of \<^verbatim>\<open>Use\<close>, the evaluation of the registry and the
  sorting of its set included, and returns while caller 0 still holds the mutex and has
  not yet stored the new set. A caller of \<^verbatim>\<open>ClearRegistry\<close> in the place of caller 1
  cannot take a single step.
\<close>

theorem Use_runs_inside_a_locked_registration:
  "run [0, 1, 1, 1, 1] ([Register_Lock 7, Use_assign (<)], race_world) =
     Some ([Register_store 7, Returned],
           \<lparr>policy = \<lparr>Id = RoundRobin, By = (<), registry = [0], registryMU = True\<rparr>,
            members = (\<lambda>r. [])(0 := [1, 2, 3])\<rparr>) \<and>
   run [0, 1] ([Register_Lock 7, Clear_Lock], race_world) = None"
  by (simp add: race_world_def SortValidators_def By_Sort_def sort_Sort_def Len_def
      insertion_outer.simps insertion_inner.simps Less_def Swap_def)


section \<open>Properties of the RLP codec\<close>

subsection \<open>Big-endian bytes\<close>

declare be_bytes.simps [simp del]

lemma be_bytes_0 [simp]: "be_bytes 0 = []"
  by (simp add: be_bytes.simps)

lemma be_bytes_pos: "0 < n \<Longrightarrow> be_bytes n = be_bytes (n div 256) @ [of_nat (n mod 256)]"
  by (subst be_bytes.simps) simp

lemma be_bytes_eq_Nil [simp]: "be_bytes n = [] \<longleftrightarrow> n = 0"
  by (subst be_bytes.simps) simp

lemma unat_byte_of_nat: "n < 256 \<Longrightarrow> unat (of_nat n :: byte) = n"
  by (simp add: unat_of_nat)

lemma unat_byte_less: "unat (b :: byte) < 256"
  using unsigned_less [of b] by simp

lemma read_be_Nil [simp]: "read_be [] = 0"
  by (simp add: read_be_def)

lemma read_be_snoc [simp]: "read_be (bs @ [b]) = read_be bs * 256 + unat b"
  by (simp add: read_be_def)

lemma read_be_be_bytes [simp]: "read_be (be_bytes n) = n"
proof (induction n rule: less_induct)
  case (less n)
  show ?case
  proof (cases "n = 0")
    case True
    then show ?thesis by simp
  next
    case False
    then have "n div 256 < n" by simp
    from less.IH [OF this] False show ?thesis
      by (simp add: be_bytes_pos unat_byte_of_nat)
  qed
qed

lemma read_be_Cons: "read_be (b # bs) = unat b * 256 ^ length bs + read_be bs"
proof (induction bs rule: rev_induct)
  case Nil
  then show ?case by (simp add: read_be_def)
next
  case (snoc c bs)
  have "read_be (b # bs @ [c]) = read_be ((b # bs) @ [c])" by simp
  also have "\<dots> = read_be (b # bs) * 256 + unat c" by (rule read_be_snoc)
  finally show ?case using snoc by (simp add: algebra_simps)
qed

lemma read_be_less: "read_be bs < 256 ^ length bs"
proof (induction bs rule: rev_induct)
  case Nil
  then show ?case by simp
next
  case (snoc b bs)
  have "read_be bs * 256 + unat b < (read_be bs + 1) * 256"
    using unat_byte_less [of b] by simp
  also have "\<dots> \<le> 256 ^ length bs * 256"
    using snoc by (intro mult_right_mono) simp_all
  finally show ?case by simp
qed

lemma hd_be_bytes: "0 < n \<Longrightarrow> hd (be_bytes n) \<noteq> 0"
proof (induction n rule: less_induct)
  case (less n)
  show ?case
  proof (cases "n div 256 = 0")
    case True
    then have "n < 256" using less.prems by (simp add: div_eq_0_iff)
    then have "be_bytes n = [of_nat n]"
      using less.prems by (simp add: be_bytes_pos)
    moreover have "(of_nat n :: byte) \<noteq> 0"
      using \<open>n < 256\<close> less.prems unat_byte_of_nat [of n] by (metis unat_0 less_numeral_extra(3))
    ultimately show ?thesis by simp
  next
    case False
    then have "n div 256 < n" "0 < n div 256" using less.prems by simp_all
    from less.IH [OF this] have h: "hd (be_bytes (n div 256)) \<noteq> 0" .
    have ne: "be_bytes (n div 256) \<noteq> []" using False by simp
    have "be_bytes n = be_bytes (n div 256) @ [of_nat (n mod 256)]"
      using less.prems by (rule be_bytes_pos)
    then show ?thesis using h ne by simp
  qed
qed

lemma length_be_bytes_le: "n < 256 ^ k \<Longrightarrow> length (be_bytes n) \<le> k"
proof (induction n arbitrary: k rule: less_induct)
  case (less n)
  show ?case
  proof (cases "n = 0")
    case True
    then show ?thesis by simp
  next
    case False
    then obtain k' where k: "k = Suc k'" using less.prems by (cases k) simp_all
    have "n div 256 < 256 ^ k'"
      using less.prems k by (simp add: less_mult_imp_div_less)
    moreover have "n div 256 < n" using False by simp
    ultimately have "length (be_bytes (n div 256)) \<le> k'" by (rule less.IH [rotated])
    then show ?thesis using False k by (simp add: be_bytes_pos)
  qed
qed

lemma be_bytes_read_be: "bs = [] \<or> hd bs \<noteq> 0 \<Longrightarrow> be_bytes (read_be bs) = bs"
proof (induction bs rule: rev_induct)
  case Nil
  then show ?case by simp
next
  case (snoc b bs)
  show ?case
  proof (cases "bs = []")
    case True
    with snoc.prems have "b \<noteq> 0" by simp
    then have "0 < unat b" by (simp add: unat_gt_0)
    then show ?thesis using True unat_byte_less [of b]
      by (simp add: be_bytes_pos read_be_def)
  next
    case False
    with snoc.prems have hd: "hd bs \<noteq> 0" by simp
    then have ih: "be_bytes (read_be bs) = bs" using snoc.IH by simp
    have pos: "0 < read_be bs"
    proof (rule ccontr)
      assume "\<not> 0 < read_be bs"
      then have "be_bytes (read_be bs) = []" by simp
      with ih False show False by simp
    qed
    have "(read_be bs * 256 + unat b) div 256 = read_be bs"
      using unat_byte_less [of b] by simp
    moreover have "(read_be bs * 256 + unat b) mod 256 = unat b"
      using unat_byte_less [of b] by simp
    ultimately show ?thesis using pos ih by (simp add: be_bytes_pos)
  qed
qed

lemma length_be_bytes_ge: "256 ^ k \<le> n \<Longrightarrow> k < length (be_bytes n)"
proof (rule ccontr)
  assume a: "256 ^ k \<le> n" "\<not> k < length (be_bytes n)"
  have "read_be (be_bytes n) < 256 ^ length (be_bytes n)" by (rule read_be_less)
  also have "\<dots> \<le> 256 ^ k" using a(2) by (intro power_increasing) simp_all
  finally show False using a(1) by simp
qed

subsection \<open>What is written is read back\<close>

lemma length_be_bytes_uint64:
  assumes "56 \<le> sz" "fits_uint64 sz"
  shows "1 \<le> length (be_bytes sz)" "length (be_bytes sz) \<le> 8"
proof -
  have "sz \<noteq> 0" using assms by simp
  then have "be_bytes sz \<noteq> []" by simp
  then show "1 \<le> length (be_bytes sz)" by (cases "be_bytes sz") simp_all
  have "sz < 256 ^ 8" using assms(2) by (simp add: fits_uint64_def)
  then show "length (be_bytes sz) \<le> 8" by (rule length_be_bytes_le)
qed

lemma readUint_be_bytes:
  assumes "0 < sz"
  shows "readUint (length (be_bytes sz)) (be_bytes sz @ rest) = Inr (sz, rest)"
proof -
  let ?lb = "be_bytes sz"
  have ne: "?lb \<noteq> []" using assms by simp
  have hd: "hd ?lb \<noteq> 0" using assms by (rule hd_be_bytes)
  show ?thesis
  proof (cases "length ?lb = 1")
    case True
    then obtain b where b: "?lb = [b]" by (cases ?lb) simp_all
    have "read_be ?lb = sz" by simp
    then have "unat b = sz" by (simp add: b read_be_def)
    then show ?thesis using True b by (simp add: readUint_def)
  next
    case False
    have "(?lb @ rest) ! 0 = hd ?lb" using ne by (simp add: hd_conv_nth nth_append)
    with hd False ne show ?thesis by (simp add: readUint_def)
  qed
qed

lemma readKind_puthead_string:
  assumes "fits_uint64 sz"
  shows "readKind (puthead 0x80 0xB7 sz @ rest) = Inr (String_kind sz, rest)"
proof (cases "sz < 56")
  case True
  then have "unat (of_nat (0x80 + sz) :: byte) = 0x80 + sz"
    by (intro unat_byte_of_nat) simp
  with True show ?thesis by (simp add: readKind_def puthead_def)
next
  case False
  note len = length_be_bytes_uint64 [OF _ assms]
  have l: "1 \<le> length (be_bytes sz)" "length (be_bytes sz) \<le> 8" using False len by simp_all
  then have u: "unat (183 + of_nat (length (be_bytes sz)) :: byte) = 183 + length (be_bytes sz)"
    using unat_byte_of_nat [of "183 + length (be_bytes sz)"] by simp
  have "0 < sz" using False by simp
  from readUint_be_bytes [OF this] False l show ?thesis
    by (simp add: readKind_def puthead_def u)
qed

lemma readKind_puthead_list:
  assumes "fits_uint64 sz"
  shows "readKind (puthead 0xC0 0xF7 sz @ rest) = Inr (List_kind sz, rest)"
proof (cases "sz < 56")
  case True
  then have "unat (of_nat (0xC0 + sz) :: byte) = 0xC0 + sz"
    by (intro unat_byte_of_nat) simp
  with True show ?thesis by (simp add: readKind_def puthead_def)
next
  case False
  note len = length_be_bytes_uint64 [OF _ assms]
  have l: "1 \<le> length (be_bytes sz)" "length (be_bytes sz) \<le> 8" using False len by simp_all
  then have u: "unat (247 + of_nat (length (be_bytes sz)) :: byte) = 247 + length (be_bytes sz)"
    using unat_byte_of_nat [of "247 + length (be_bytes sz)"] by simp
  have "0 < sz" using False by simp
  from readUint_be_bytes [OF this] False l show ?thesis
    by (simp add: readKind_def puthead_def u)
qed

lemma Stream_List_writeList:
  "fits_uint64 (length content) \<Longrightarrow>
   Stream_List (writeList content @ rest) = Inr (content, rest)"
  by (simp add: Stream_List_def writeList_def readKind_puthead_list)

lemma writeBytes_not_Nil [simp]: "writeBytes b \<noteq> []"
  by (simp add: writeBytes_def puthead_def)

lemma decodeBigInt_writeBytes:
  assumes "fits_uint64 (length (be_bytes n))"
  shows "decodeBigInt (writeBytes (be_bytes n) @ rest) = Inr (int n, rest)"
proof -
  let ?lb = "be_bytes n"
  consider (zero) "n = 0" | (small) "0 < n" "n < 128" | (large) "128 \<le> n" by linarith
  then show ?thesis
  proof cases
    case zero
    then show ?thesis
      by (simp add: writeBytes_def puthead_def decodeBigInt_def readKind_def)
  next
    case small
    then have lb: "?lb = [of_nat n]" by (simp add: be_bytes_pos)
    have u: "unat (of_nat n :: byte) = n" using small by (intro unat_byte_of_nat) simp
    then have "(of_nat n :: byte) \<noteq> 0" using small by (metis unat_0 less_numeral_extra(3))
    with small u show ?thesis
      by (simp add: lb writeBytes_def decodeBigInt_def readKind_def)
  next
    case large
    then have pos: "0 < n" by simp
    have ne: "?lb \<noteq> []" using pos by simp
    have hd: "?lb ! 0 \<noteq> 0" using hd_be_bytes [OF pos] ne by (simp add: hd_conv_nth)
    have one: "unat (?lb ! 0) = n" if "length ?lb = 1"
    proof -
      from that obtain b where b: "?lb = [b]" by (cases ?lb) simp_all
      have "read_be ?lb = n" by simp
      then show ?thesis by (simp add: b read_be_def)
    qed
    have wb: "writeBytes ?lb = puthead 0x80 0xB7 (length ?lb) @ ?lb"
      using one large by (auto simp: writeBytes_def)
    have len: "0 < length ?lb" using ne by simp
    show ?thesis
      using readKind_puthead_string [OF assms, of "?lb @ rest"] len hd one large
      by (auto simp: wb decodeBigInt_def Let_def nth_append)
  qed
qed

lemma writeBigIntPtr_valid:
  "valid_bigInt x \<Longrightarrow> writeBigIntPtr x = Inr (writeBytes (be_bytes (nat (the x))))"
  by (auto simp: valid_bigInt_def writeBigIntPtr_def split: option.splits)

lemma View_roundtrip:
  assumes "valid_View v"
  shows "\<exists>enc. View_EncodeRLP v = Inr enc \<and> View_DecodeRLP v0 (enc @ rest) = (v, Inr rest)"
proof -
  from assms obtain r s where rs: "Round v = Some r" "Sequence v = Some s"
    and nonneg: "0 \<le> r" "0 \<le> s"
    and fr: "fits_uint64 (length (be_bytes (nat r)))"
    and fs: "fits_uint64 (length (be_bytes (nat s)))"
    by (auto simp: valid_View_def valid_bigInt_def split: option.splits)
  let ?r = "writeBytes (be_bytes (nat r))" and ?s = "writeBytes (be_bytes (nat s))"
  have enc: "View_EncodeRLP v = Inr (writeList (?r @ ?s))"
    using rs nonneg by (simp add: View_EncodeRLP_def writeBigIntPtr_def)
  have fp: "fits_uint64 (length (?r @ ?s))"
    using assms rs by (simp add: valid_View_def bigInt_string_def)
  have d1: "decodeBigInt (?r @ ?s) = Inr (r, ?s)"
    using decodeBigInt_writeBytes [OF fr, of ?s] nonneg by simp
  have d2: "decodeBigInt ?s = Inr (s, [])"
    using decodeBigInt_writeBytes [OF fs, of "[]"] nonneg by simp
  have "Stream_Decode_view (writeList (?r @ ?s) @ rest) =
          Inr (\<lparr>Round = Some r, Sequence = Some s\<rparr>, rest)"
    by (simp add: Stream_Decode_view_def Stream_List_writeList [OF fp] decode_field_def d1 d2
        Stream_ListEnd_def)
  then have "View_DecodeRLP v0 (writeList (?r @ ?s) @ rest) = (v, Inr rest)"
    using rs by (simp add: View_DecodeRLP_def)
  with enc show ?thesis by simp
qed

subsection \<open>What is read was written\<close>

lemma byte_of_unat [simp]: "(of_nat (unat b) :: byte) = b"
  by simp

lemma readUint_sound:
  assumes "readUint k s = Inr (sz, s'')" "1 \<le> k" "k \<le> 8" "56 \<le> sz"
  shows "s = be_bytes sz @ s'' \<and> length (be_bytes sz) = k \<and> fits_uint64 sz"
proof (cases "k = 1")
  case True
  with assms(1) obtain b where b: "s = b # s''" "sz = unat b"
    by (auto simp: readUint_def split: list.splits)
  have "be_bytes sz = [b]"
    using assms(4) b unat_byte_less [of b] by (simp add: be_bytes_pos)
  moreover have "fits_uint64 sz"
    using b unat_byte_less [of b] by (simp add: fits_uint64_def)
  ultimately show ?thesis using b True by simp
next
  case False
  with assms(1,2) have len: "k \<le> length s" and nz: "s ! 0 \<noteq> 0"
    and sz: "sz = read_be (take k s)" and rest: "s'' = drop k s"
    by (auto simp: readUint_def split: if_splits)
  have "take k s \<noteq> []" using len assms(2) by auto
  moreover have "hd (take k s) = s ! 0" using len assms(2) by (cases s) auto
  ultimately have "be_bytes (read_be (take k s)) = take k s"
    using nz by (intro be_bytes_read_be) simp
  moreover have "read_be (take k s) < 256 ^ 8"
  proof -
    have "read_be (take k s) < 256 ^ length (take k s)" by (rule read_be_less)
    also have "\<dots> \<le> 256 ^ 8" using assms(3) by (intro power_increasing) simp_all
    finally show ?thesis .
  qed
  ultimately show ?thesis using sz rest len by (simp add: fits_uint64_def)
qed

lemma readKind_sound:
  assumes "readKind s = Inr (kind, s')"
  shows "case kind of
           Byte_kind b \<Rightarrow> s = b # s' \<and> unat b < 128
         | String_kind sz \<Rightarrow> s = puthead 0x80 0xB7 sz @ s' \<and> fits_uint64 sz
         | List_kind sz \<Rightarrow> s = puthead 0xC0 0xF7 sz @ s' \<and> fits_uint64 sz"
proof -
  from assms obtain b t where s: "s = b # t"
    by (auto simp: readKind_def split: list.splits)
  note lt = unat_byte_less [of b]
  consider (byte) "unat b < 0x80"
    | (short_string) "0x80 \<le> unat b" "unat b < 0xB8"
    | (long_string) "0xB8 \<le> unat b" "unat b < 0xC0"
    | (short_list) "0xC0 \<le> unat b" "unat b < 0xF8"
    | (long_list) "0xF8 \<le> unat b"
    by linarith
  then show ?thesis
  proof cases
    case byte
    with assms s show ?thesis by (auto simp: readKind_def)
  next
    case short_string
    with assms s have k: "kind = String_kind (unat b - 0x80)" "s' = t"
      by (auto simp: readKind_def)
    have "(of_nat (0x80 + (unat b - 0x80)) :: byte) = b"
      using short_string by (simp del: of_nat_add of_nat_numeral)
    moreover have "unat b - 0x80 < 56" "unat b - 0x80 < 2 ^ 64" using short_string by simp_all
    ultimately show ?thesis using k s
      by (simp add: puthead_def fits_uint64_def del: of_nat_add of_nat_numeral)
  next
    case long_string
    with assms s obtain sz where r: "readUint (unat b - 0xB7) t = Inr (sz, s')"
      and k: "kind = String_kind sz" and c: "56 \<le> sz"
      by (auto simp: readKind_def split: sum.splits if_splits)
    from readUint_sound [OF r _ _ c] long_string
    have t: "t = be_bytes sz @ s'" "length (be_bytes sz) = unat b - 0xB7" "fits_uint64 sz"
      by simp_all
    have "(of_nat (0xB7 + (unat b - 0xB7)) :: byte) = b"
      using long_string by (simp del: of_nat_add of_nat_numeral)
    then show ?thesis using k s c t
      by (simp add: puthead_def del: of_nat_add of_nat_numeral)
  next
    case short_list
    with assms s have k: "kind = List_kind (unat b - 0xC0)" "s' = t"
      by (auto simp: readKind_def)
    have "(of_nat (0xC0 + (unat b - 0xC0)) :: byte) = b"
      using short_list by (simp del: of_nat_add of_nat_numeral)
    moreover have "unat b - 0xC0 < 56" "unat b - 0xC0 < 2 ^ 64" using short_list by simp_all
    ultimately show ?thesis using k s
      by (simp add: puthead_def fits_uint64_def del: of_nat_add of_nat_numeral)
  next
    case long_list
    with assms s obtain sz where r: "readUint (unat b - 0xF7) t = Inr (sz, s')"
      and k: "kind = List_kind sz" and c: "56 \<le> sz"
      by (auto simp: readKind_def split: sum.splits if_splits)
    from readUint_sound [OF r _ _ c] long_list lt
    have t: "t = be_bytes sz @ s'" "length (be_bytes sz) = unat b - 0xF7" "fits_uint64 sz"
      by simp_all
    have "(of_nat (0xF7 + (unat b - 0xF7)) :: byte) = b"
      using long_list by (simp del: of_nat_add of_nat_numeral)
    then show ?thesis using k s c t
      by (simp add: puthead_def del: of_nat_add of_nat_numeral)
  qed
qed

lemma Stream_List_sound:
  assumes "Stream_List s = Inr (inner, s')"
  shows "s = writeList inner @ s' \<and> fits_uint64 (length inner)"
proof -
  from assms obtain sz t where rk: "readKind s = Inr (List_kind sz, t)"
    and len: "sz \<le> length t" and inner: "inner = take sz t" and s': "s' = drop sz t"
    by (auto simp: Stream_List_def split: sum.splits Kind.splits if_splits)
  from readKind_sound [OF rk] have "s = puthead 0xC0 0xF7 sz @ t" "fits_uint64 sz" by simp_all
  then show ?thesis using len inner s' by (simp add: writeList_def min_def)
qed

lemma decodeBigInt_sound:
  assumes "decodeBigInt s = Inr (i, s')"
  shows "0 \<le> i \<and> fits_uint64 (length (be_bytes (nat i))) \<and>
         s = writeBytes (be_bytes (nat i)) @ s'"
proof -
  from assms obtain kind t where rk: "readKind s = Inr (kind, t)"
    by (auto simp: decodeBigInt_def split: sum.splits)
  note snd = readKind_sound [OF rk]
  show ?thesis
  proof (cases kind)
    case (Byte_kind b)
    with assms rk have b: "b \<noteq> 0" "i = int (unat b)" "s' = t"
      by (auto simp: decodeBigInt_def split: if_splits)
    from snd Byte_kind have s: "s = b # t" "unat b < 128" by simp_all
    have "0 < unat b" using b(1) by (simp add: unat_gt_0)
    then have "be_bytes (unat b) = [b]" using s(2) by (simp add: be_bytes_pos)
    then show ?thesis using b s by (simp add: writeBytes_def fits_uint64_def)
  next
    case (String_kind sz)
    from snd String_kind have s: "s = puthead 0x80 0xB7 sz @ t" "fits_uint64 sz" by simp_all
    show ?thesis
    proof (cases "sz = 0")
      case True
      with assms rk String_kind have "i = 0" "s' = t"
        by (auto simp: decodeBigInt_def)
      then show ?thesis using s True by (simp add: writeBytes_def fits_uint64_def)
    next
      case False
      let ?buffer = "take sz t"
      from assms rk String_kind False have len: "sz \<le> length t"
        and canon: "\<not> (sz = 1 \<and> unat (?buffer ! 0) < 128)"
        and nz: "?buffer ! 0 \<noteq> 0" and i: "i = int (read_be ?buffer)" and s': "s' = drop sz t"
        by (auto simp: decodeBigInt_def Let_def split: if_splits)
      have ne: "?buffer \<noteq> []" using False len by auto
      then have "hd ?buffer \<noteq> 0" using nz by (simp add: hd_conv_nth)
      then have bb: "be_bytes (read_be ?buffer) = ?buffer"
        by (intro be_bytes_read_be) simp
      have lb: "length ?buffer = sz" using len by simp
      have "writeBytes ?buffer = puthead 0x80 0xB7 sz @ ?buffer"
        using canon lb by (auto simp: writeBytes_def)
      then show ?thesis using i s s' bb lb by simp
    qed
  next
    case (List_kind sz)
    with assms rk show ?thesis by (simp add: decodeBigInt_def)
  qed
qed

lemma Stream_Decode_view_sound:
  assumes "Stream_Decode_view s = Inr (view, s')"
  shows "valid_View view \<and> (\<exists>enc. View_EncodeRLP view = Inr enc \<and> s = enc @ s')"
proof -
  from assms obtain inner r inner1 sq where sl: "Stream_List s = Inr (inner, s')"
    and d1: "decodeBigInt inner = Inr (r, inner1)"
    and d2: "decodeBigInt inner1 = Inr (sq, [])"
    and view: "view = \<lparr>Round = Some r, Sequence = Some sq\<rparr>"
    by (auto simp: Stream_Decode_view_def decode_field_def Stream_ListEnd_def
        split: sum.splits if_splits option.splits)
  note a = Stream_List_sound [OF sl] decodeBigInt_sound [OF d1] decodeBigInt_sound [OF d2]
  let ?r = "writeBytes (be_bytes (nat r))" and ?s = "writeBytes (be_bytes (nat sq))"
  have inner: "inner = ?r @ ?s" using a by simp
  have "valid_View view"
    using a inner view by (simp add: valid_View_def valid_bigInt_def bigInt_string_def)
  moreover have "View_EncodeRLP view = Inr (writeList (?r @ ?s))"
    using a view by (simp add: View_EncodeRLP_def writeBigIntPtr_def)
  ultimately show ?thesis using a inner by auto
qed

subsection \<open>Subject and Preprepare\<close>

lemma View_EncodeRLP_valid: "valid_View v \<Longrightarrow> View_EncodeRLP v = Inr (View_bytes v)"
  by (auto simp: valid_View_def valid_bigInt_def View_EncodeRLP_def writeBigIntPtr_def
      View_bytes_def bigInt_string_def split: option.splits)

lemma writeList_not_Nil [simp]: "writeList content \<noteq> []"
  by (simp add: writeList_def puthead_def)

lemma View_bytes_not_Nil [simp]: "View_bytes v \<noteq> []"
  by (simp add: View_bytes_def)

lemma View_DecodeRLP_View_bytes:
  "valid_View v \<Longrightarrow> View_DecodeRLP v0 (View_bytes v @ rest) = (v, Inr rest)"
  using View_roundtrip [of v v0 rest] by (simp add: View_EncodeRLP_valid)

lemma decodeViewPtr_View_bytes:
  "valid_View v \<Longrightarrow> decodeViewPtr (View_bytes v @ rest) = Inr (Some v, rest)"
  by (simp add: decodeViewPtr_def View_DecodeRLP_View_bytes)

lemma decodeViewPtr_sound:
  assumes "decodeViewPtr s = Inr (ptr, s')"
  shows "\<exists>v. ptr = Some v \<and> valid_View v \<and> s = View_bytes v @ s'"
proof -
  from assms obtain view where d: "Stream_Decode_view s = Inr (view, s')"
    and ptr: "ptr = Some view"
    by (auto simp: decodeViewPtr_def View_DecodeRLP_def split: sum.splits prod.splits)
  from Stream_Decode_view_sound [OF d] show ?thesis
    using ptr by (auto simp: View_EncodeRLP_valid)
qed

lemma decodeByteArray_writeByteArray:
  assumes "length arr = 32"
  shows "decodeByteArray 32 (writeByteArray arr @ rest) = Inr (arr, rest)"
proof -
  have "fits_uint64 32" by (simp add: fits_uint64_def)
  from readKind_puthead_string [OF this, of "arr @ rest"] assms show ?thesis
    by (simp add: decodeByteArray_def writeByteArray_def)
qed

lemma decodeByteArray_sound:
  assumes "decodeByteArray 32 s = Inr (arr, s')"
  shows "length arr = 32 \<and> s = writeByteArray arr @ s'"
proof -
  from assms obtain kind t where rk: "readKind s = Inr (kind, t)"
    by (auto simp: decodeByteArray_def split: sum.splits)
  show ?thesis
  proof (cases kind)
    case (Byte_kind b)
    with assms rk show ?thesis by (simp add: decodeByteArray_def)
  next
    case (String_kind sz)
    with assms rk have sz: "sz = 32" and len: "32 \<le> length t"
      and arr: "arr = take 32 t" and s': "s' = drop 32 t"
      by (auto simp: decodeByteArray_def split: if_splits)
    from readKind_sound [OF rk] String_kind sz have "s = puthead 0x80 0xB7 32 @ t" by simp
    then show ?thesis using len arr s' by (simp add: writeByteArray_def)
  next
    case (List_kind sz)
    with assms rk show ?thesis by (simp add: decodeByteArray_def)
  qed
qed

lemma writeByteArray_not_Nil [simp]: "writeByteArray arr \<noteq> []"
  by (simp add: writeByteArray_def puthead_def)

lemma Subject_roundtrip:
  assumes "valid_Subject b"
  shows "\<exists>enc. Subject_EncodeRLP b = Inr enc \<and>
           Subject_DecodeRLP b0 (enc @ rest) = (b, Inr rest)"
proof -
  from assms obtain v where v: "Subject.View b = Some v" "valid_View v"
    and len: "length (Digest b) = 32"
    and fits: "fits_uint64 (length (View_bytes v @ writeByteArray (Digest b)))"
    by (auto simp: valid_Subject_def split: option.splits)
  let ?content = "View_bytes v @ writeByteArray (Digest b)"
  have enc: "Subject_EncodeRLP b = Inr (writeList ?content)"
    using v by (simp add: Subject_EncodeRLP_def writeViewPtr_def View_EncodeRLP_valid)
  have d2: "decodeByteArray 32 (writeByteArray (Digest b)) = Inr (Digest b, [])"
    using decodeByteArray_writeByteArray [OF len, of "[]"] by simp
  have "Stream_Decode_subject (writeList ?content @ rest) =
          Inr (\<lparr>Subject.View = Some v, Digest = Digest b\<rparr>, rest)"
    using v(2)
    by (simp add: Stream_Decode_subject_def Stream_List_writeList [OF fits] decode_field_def
        decodeViewPtr_View_bytes d2 Stream_ListEnd_def)
  then have "Subject_DecodeRLP b0 (writeList ?content @ rest) = (b, Inr rest)"
    using v(1) by (simp add: Subject_DecodeRLP_def)
  with enc show ?thesis by simp
qed

lemma Stream_Decode_subject_sound:
  assumes "Stream_Decode_subject s = Inr (subject, s')"
  shows "valid_Subject subject \<and> (\<exists>enc. Subject_EncodeRLP subject = Inr enc \<and> s = enc @ s')"
proof -
  from assms obtain inner view inner1 digest where sl: "Stream_List s = Inr (inner, s')"
    and d1: "decodeViewPtr inner = Inr (view, inner1)"
    and d2: "decodeByteArray 32 inner1 = Inr (digest, [])"
    and subject: "subject = \<lparr>Subject.View = view, Digest = digest\<rparr>"
    by (auto simp: Stream_Decode_subject_def decode_field_def Stream_ListEnd_def
        split: sum.splits if_splits option.splits)
  from decodeViewPtr_sound [OF d1] obtain v where v: "view = Some v" "valid_View v"
    "inner = View_bytes v @ inner1" by auto
  note a = Stream_List_sound [OF sl] decodeByteArray_sound [OF d2]
  have inner: "inner = View_bytes v @ writeByteArray digest" using v a by simp
  have "valid_Subject subject"
    using a v inner subject by (simp add: valid_Subject_def)
  moreover have "Subject_EncodeRLP subject = Inr (writeList inner)"
    using v subject inner
    by (simp add: Subject_EncodeRLP_def writeViewPtr_def View_EncodeRLP_valid)
  ultimately show ?thesis using a by auto
qed

lemma Preprepare_roundtrip:
  assumes "valid_Preprepare Block_EncodeRLP b"
    and "block_codec_complete Block_EncodeRLP Block_DecodeRLP (the (Proposal b))"
  shows "\<exists>enc. Preprepare_EncodeRLP Block_EncodeRLP b = Inr enc \<and>
           Preprepare_DecodeRLP Block_DecodeRLP b0 (enc @ rest) = (b, Inr rest)"
proof -
  from assms(1) obtain v p pe where v: "Preprepare.View b = Some v" "valid_View v"
    and p: "Proposal b = Some p" "Block_EncodeRLP p = Inr pe" "pe \<noteq> []"
    and fits: "fits_uint64 (length (View_bytes v @ pe))"
    by (auto simp: valid_Preprepare_def split: option.splits sum.splits)
  let ?content = "View_bytes v @ pe"
  have enc: "Preprepare_EncodeRLP Block_EncodeRLP b = Inr (writeList ?content)"
    using v p
    by (simp add: Preprepare_EncodeRLP_def writeViewPtr_def View_EncodeRLP_valid
        writeInterface_def)
  have d2: "Block_DecodeRLP pe = Inr (p, [])"
    using assms(2) p by (auto simp: block_codec_complete_def dest: spec [where x = "[]"])
  have "Stream_Decode_preprepare Block_DecodeRLP (writeList ?content @ rest) =
          Inr (\<lparr>Preprepare.View = Some v, Proposal = Some p\<rparr>, rest)"
    using v(2) p(3)
    by (simp add: Stream_Decode_preprepare_def Stream_List_writeList [OF fits] decode_field_def
        decodeViewPtr_View_bytes decodeBlockPtr_def d2 Stream_ListEnd_def)
  then have "Preprepare_DecodeRLP Block_DecodeRLP b0 (writeList ?content @ rest) = (b, Inr rest)"
    using v(1) p(1) by (simp add: Preprepare_DecodeRLP_def)
  with enc show ?thesis by simp
qed

lemma Stream_Decode_preprepare_sound:
  assumes "Stream_Decode_preprepare Block_DecodeRLP s = Inr (preprepare, s')"
    and "block_codec_sound Block_EncodeRLP Block_DecodeRLP"
  shows "valid_Preprepare Block_EncodeRLP preprepare \<and>
         (\<exists>enc. Preprepare_EncodeRLP Block_EncodeRLP preprepare = Inr enc \<and> s = enc @ s')"
proof -
  from assms(1) obtain inner view inner1 p where sl: "Stream_List s = Inr (inner, s')"
    and d1: "decodeViewPtr inner = Inr (view, inner1)"
    and d2: "Block_DecodeRLP inner1 = Inr (p, [])"
    and pp: "preprepare = \<lparr>Preprepare.View = view, Proposal = Some p\<rparr>"
    by (auto simp: Stream_Decode_preprepare_def decode_field_def Stream_ListEnd_def
        decodeBlockPtr_def split: sum.splits if_splits option.splits)
  from decodeViewPtr_sound [OF d1] obtain v where v: "view = Some v" "valid_View v"
    "inner = View_bytes v @ inner1" by auto
  from assms(2) d2 have "\<exists>pe. Block_EncodeRLP p = Inr pe \<and> pe \<noteq> [] \<and> inner1 = pe @ []"
    unfolding block_codec_sound_def by blast
  then obtain pe where pe: "Block_EncodeRLP p = Inr pe" "pe \<noteq> []" "inner1 = pe"
    by auto
  note a = Stream_List_sound [OF sl]
  have inner: "inner = View_bytes v @ pe" using v pe by simp
  have "valid_Preprepare Block_EncodeRLP preprepare"
    using a v inner pp pe by (simp add: valid_Preprepare_def)
  moreover have "Preprepare_EncodeRLP Block_EncodeRLP preprepare = Inr (writeList inner)"
    using v pp inner pe
    by (simp add: Preprepare_EncodeRLP_def writeViewPtr_def View_EncodeRLP_valid
        writeInterface_def)
  ultimately show ?thesis using a by auto
qed

subsection \<open>Decoding succeeds on well-formed input only\<close>

lemma flag_codec_complete: "block_codec_complete flag_EncodeRLP flag_DecodeRLP p"
  by (simp add: block_codec_complete_def flag_EncodeRLP_def flag_DecodeRLP_def)

lemma flag_codec_sound: "block_codec_sound flag_EncodeRLP flag_DecodeRLP"
  by (auto simp: block_codec_sound_def flag_EncodeRLP_def flag_DecodeRLP_def
      split: list.splits if_splits)

lemma View_DecodeRLP_error_keeps_receiver:
  "\<not> decode_ok (View_DecodeRLP v s) \<Longrightarrow> fst (View_DecodeRLP v s) = v"
  by (auto simp: decode_ok_def View_DecodeRLP_def split: sum.splits)

lemma Subject_DecodeRLP_error_keeps_receiver:
  "\<not> decode_ok (Subject_DecodeRLP b s) \<Longrightarrow> fst (Subject_DecodeRLP b s) = b"
  by (auto simp: decode_ok_def Subject_DecodeRLP_def split: sum.splits)

lemma Preprepare_DecodeRLP_error_keeps_receiver:
  "\<not> decode_ok (Preprepare_DecodeRLP dec b s) \<Longrightarrow> fst (Preprepare_DecodeRLP dec b s) = b"
  by (auto simp: decode_ok_def Preprepare_DecodeRLP_def split: sum.splits)

lemma View_decode_ok_iff:
  "decode_ok (View_DecodeRLP v s) \<longleftrightarrow>
     (\<exists>w enc s'. valid_View w \<and> View_EncodeRLP w = Inr enc \<and> s = enc @ s')"
proof
  assume "decode_ok (View_DecodeRLP v s)"
  then obtain view s' where "Stream_Decode_view s = Inr (view, s')"
    by (auto simp: decode_ok_def View_DecodeRLP_def split: sum.splits)
  from Stream_Decode_view_sound [OF this]
  show "\<exists>w enc s'. valid_View w \<and> View_EncodeRLP w = Inr enc \<and> s = enc @ s'" by blast
next
  assume "\<exists>w enc s'. valid_View w \<and> View_EncodeRLP w = Inr enc \<and> s = enc @ s'"
  then obtain w enc s' where w: "valid_View w" "View_EncodeRLP w = Inr enc" "s = enc @ s'"
    by blast
  from View_roundtrip [OF w(1), of v s'] w show "decode_ok (View_DecodeRLP v s)"
    by (auto simp: decode_ok_def)
qed

lemma Subject_decode_ok_iff:
  "decode_ok (Subject_DecodeRLP b s) \<longleftrightarrow>
     (\<exists>w enc s'. valid_Subject w \<and> Subject_EncodeRLP w = Inr enc \<and> s = enc @ s')"
proof
  assume "decode_ok (Subject_DecodeRLP b s)"
  then obtain subject s' where "Stream_Decode_subject s = Inr (subject, s')"
    by (auto simp: decode_ok_def Subject_DecodeRLP_def split: sum.splits)
  from Stream_Decode_subject_sound [OF this]
  show "\<exists>w enc s'. valid_Subject w \<and> Subject_EncodeRLP w = Inr enc \<and> s = enc @ s'" by blast
next
  assume "\<exists>w enc s'. valid_Subject w \<and> Subject_EncodeRLP w = Inr enc \<and> s = enc @ s'"
  then obtain w enc s' where w: "valid_Subject w" "Subject_EncodeRLP w = Inr enc" "s = enc @ s'"
    by blast
  from Subject_roundtrip [OF w(1), of b s'] w show "decode_ok (Subject_DecodeRLP b s)"
    by (auto simp: decode_ok_def)
qed

lemma Preprepare_decode_ok_iff:
  assumes "block_codec_sound enc_p dec_p" "\<forall>p. block_codec_complete enc_p dec_p p"
  shows "decode_ok (Preprepare_DecodeRLP dec_p b s) \<longleftrightarrow>
     (\<exists>w enc s'. valid_Preprepare enc_p w \<and> Preprepare_EncodeRLP enc_p w = Inr enc \<and>
        s = enc @ s')"
proof
  assume "decode_ok (Preprepare_DecodeRLP dec_p b s)"
  then obtain pp s' where "Stream_Decode_preprepare dec_p s = Inr (pp, s')"
    by (auto simp: decode_ok_def Preprepare_DecodeRLP_def split: sum.splits)
  from Stream_Decode_preprepare_sound [OF this assms(1)]
  show "\<exists>w enc s'. valid_Preprepare enc_p w \<and> Preprepare_EncodeRLP enc_p w = Inr enc \<and>
        s = enc @ s'" by blast
next
  assume "\<exists>w enc s'. valid_Preprepare enc_p w \<and> Preprepare_EncodeRLP enc_p w = Inr enc \<and>
        s = enc @ s'"
  then obtain w enc s' where w: "valid_Preprepare enc_p w"
    "Preprepare_EncodeRLP enc_p w = Inr enc" "s = enc @ s'"
    by blast
  from assms(2) have "block_codec_complete enc_p dec_p (the (Proposal w))" by simp
  from Preprepare_roundtrip [OF w(1) this, of b s'] w
  show "decode_ok (Preprepare_DecodeRLP dec_p b s)"
    by (auto simp: decode_ok_def)
qed

lemma View_truncated:
  assumes "valid_View w" "View_EncodeRLP w = Inr enc" "n < length enc"
  shows "\<not> decode_ok (View_DecodeRLP v (take n enc))"
proof
  assume "decode_ok (View_DecodeRLP v (take n enc))"
  then obtain w' enc' s' where w': "valid_View w'" "View_EncodeRLP w' = Inr enc'"
    "take n enc = enc' @ s'"
    unfolding View_decode_ok_iff by blast
  have "enc = enc' @ (s' @ drop n enc)"
    using w'(3) append_take_drop_id [of n enc] by (metis append.assoc)
  moreover from View_roundtrip [OF w'(1), of v "s' @ drop n enc"] w'(2)
  have "View_DecodeRLP v (enc' @ (s' @ drop n enc)) = (w', Inr (s' @ drop n enc))" by simp
  moreover from View_roundtrip [OF assms(1), of v "[]"] assms(2)
  have "View_DecodeRLP v enc = (w, Inr [])" by simp
  ultimately have "drop n enc = []" by simp
  with assms(3) show False by simp
qed

lemma Subject_truncated:
  assumes "valid_Subject w" "Subject_EncodeRLP w = Inr enc" "n < length enc"
  shows "\<not> decode_ok (Subject_DecodeRLP b (take n enc))"
proof
  assume "decode_ok (Subject_DecodeRLP b (take n enc))"
  then obtain w' enc' s' where w': "valid_Subject w'" "Subject_EncodeRLP w' = Inr enc'"
    "take n enc = enc' @ s'"
    unfolding Subject_decode_ok_iff by blast
  have "enc = enc' @ (s' @ drop n enc)"
    using w'(3) append_take_drop_id [of n enc] by (metis append.assoc)
  moreover from Subject_roundtrip [OF w'(1), of b "s' @ drop n enc"] w'(2)
  have "Subject_DecodeRLP b (enc' @ (s' @ drop n enc)) = (w', Inr (s' @ drop n enc))" by simp
  moreover from Subject_roundtrip [OF assms(1), of b "[]"] assms(2)
  have "Subject_DecodeRLP b enc = (w, Inr [])" by simp
  ultimately have "drop n enc = []" by simp
  with assms(3) show False by simp
qed

lemma example_View_valid: "valid_View example_View"
  by (simp add: valid_View_def valid_bigInt_def example_View_def bigInt_string_def
      fits_uint64_def be_bytes.simps writeBytes_def puthead_def)

lemma example_View_bytes: "View_bytes example_View = [0xC4, 0x01, 0x82, 0x01, 0x2C]"
  by (simp add: View_bytes_def example_View_def bigInt_string_def be_bytes.simps
      writeBytes_def puthead_def writeList_def)

lemma example_Subject_valid: "valid_Subject example_Subject"
  by (simp add: valid_Subject_def example_Subject_def example_View_valid example_View_bytes
      writeByteArray_def puthead_def fits_uint64_def)

lemma example_Preprepare_valid: "valid_Preprepare flag_EncodeRLP example_Preprepare"
  by (simp add: valid_Preprepare_def example_Preprepare_def example_View_valid
      example_View_bytes flag_EncodeRLP_def fits_uint64_def)

lemmas decode_eval =
  View_DecodeRLP_def Stream_Decode_view_def Stream_List_def readKind_def readUint_def
  decode_field_def decodeBigInt_def Stream_ListEnd_def decode_ok_def Let_def
  Subject_DecodeRLP_def Stream_Decode_subject_def decodeViewPtr_def decodeByteArray_def
  Preprepare_DecodeRLP_def Stream_Decode_preprepare_def decodeBlockPtr_def flag_DecodeRLP_def

text \<open>
  Claim C8. Decoding the encoding of a valid value gives the value back, whatever the
  receiver held before and whatever follows in the stream: for a view with non-nil,
  non-negative round and sequence; for a subject with such a view and a 32-byte digest;
  and for a preprepare with such a view and a proposal, provided the proposal's own codec
  decodes that proposal's encoding back to it.
\<close>

theorem RLP_encode_decode_roundtrip:
  "(valid_View v \<longrightarrow>
      (\<exists>enc. View_EncodeRLP v = Inr enc \<and> View_DecodeRLP v0 (enc @ rest) = (v, Inr rest))) \<and>
   (valid_Subject sb \<longrightarrow>
      (\<exists>enc. Subject_EncodeRLP sb = Inr enc \<and>
         Subject_DecodeRLP sb0 (enc @ rest) = (sb, Inr rest))) \<and>
   (valid_Preprepare Block_EncodeRLP pp \<and>
    block_codec_complete Block_EncodeRLP Block_DecodeRLP (the (Proposal pp)) \<longrightarrow>
      (\<exists>enc. Preprepare_EncodeRLP Block_EncodeRLP pp = Inr enc \<and>
         Preprepare_DecodeRLP Block_DecodeRLP pp0 (enc @ rest) = (pp, Inr rest)))"
  using View_roundtrip [of v v0 rest] Subject_roundtrip [of sb sb0 rest]
    Preprepare_roundtrip [of Block_EncodeRLP pp Block_DecodeRLP pp0 rest]
  by blast

theorem RLP_encode_decode_roundtrip_witness:
  "valid_View example_View \<and> valid_Subject example_Subject \<and>
   valid_Preprepare flag_EncodeRLP example_Preprepare \<and>
   block_codec_complete flag_EncodeRLP flag_DecodeRLP (the (Proposal example_Preprepare)) \<and>
   View_EncodeRLP example_View = Inr [0xC4, 0x01, 0x82, 0x01, 0x2C] \<and>
   View_DecodeRLP \<lparr>Round = None, Sequence = None\<rparr> [0xC4, 0x01, 0x82, 0x01, 0x2C, 0xFF] =
     (example_View, Inr [0xFF]) \<and>
   Subject_EncodeRLP example_Subject =
     Inr ([0xE6, 0xC4, 0x01, 0x82, 0x01, 0x2C, 0xA0] @ replicate 32 0xAB) \<and>
   Subject_DecodeRLP \<lparr>Subject.View = None, Digest = []\<rparr>
       ([0xE6, 0xC4, 0x01, 0x82, 0x01, 0x2C, 0xA0] @ replicate 32 0xAB) =
     (example_Subject, Inr []) \<and>
   Preprepare_EncodeRLP flag_EncodeRLP example_Preprepare =
     Inr [0xC7, 0xC4, 0x01, 0x82, 0x01, 0x2C, 0xC1, 0x01] \<and>
   Preprepare_DecodeRLP flag_DecodeRLP \<lparr>Preprepare.View = None, Proposal = None\<rparr>
       [0xC7, 0xC4, 0x01, 0x82, 0x01, 0x2C, 0xC1, 0x01] =
     (example_Preprepare, Inr [])"
proof -
  have ev: "View_EncodeRLP example_View = Inr [0xC4, 0x01, 0x82, 0x01, 0x2C]"
    using example_View_bytes by (simp add: View_EncodeRLP_valid [OF example_View_valid])
  have es: "Subject_EncodeRLP example_Subject =
     Inr ([0xE6, 0xC4, 0x01, 0x82, 0x01, 0x2C, 0xA0] @ replicate 32 0xAB)"
    by (simp add: Subject_EncodeRLP_def example_Subject_def writeViewPtr_def ev
        writeByteArray_def puthead_def writeList_def)
  have ep: "Preprepare_EncodeRLP flag_EncodeRLP example_Preprepare =
     Inr [0xC7, 0xC4, 0x01, 0x82, 0x01, 0x2C, 0xC1, 0x01]"
    by (simp add: Preprepare_EncodeRLP_def example_Preprepare_def writeViewPtr_def ev
        writeInterface_def flag_EncodeRLP_def puthead_def writeList_def)
  note valid = example_View_valid example_Subject_valid example_Preprepare_valid
    flag_codec_complete [of "the (Proposal example_Preprepare)"]
  from valid ev es ep
    RLP_encode_decode_roundtrip [of example_View "\<lparr>Round = None, Sequence = None\<rparr>" "[0xFF]"
      example_Subject "\<lparr>Subject.View = None, Digest = []\<rparr>"
      flag_EncodeRLP example_Preprepare flag_DecodeRLP
      "\<lparr>Preprepare.View = None, Proposal = None\<rparr>"]
    RLP_encode_decode_roundtrip [of example_View "\<lparr>Round = None, Sequence = None\<rparr>" "[]"
      example_Subject "\<lparr>Subject.View = None, Digest = []\<rparr>"
      flag_EncodeRLP example_Preprepare flag_DecodeRLP
      "\<lparr>Preprepare.View = None, Proposal = None\<rparr>"]
  show ?thesis by simp
qed

text \<open>
  Claim C9. When \<^verbatim>\<open>DecodeRLP\<close> of a view, a subject or a preprepare does not succeed, it
  returns an error and the receiver is what it was before the call. It succeeds exactly
  when the stream starts with the encoding of a valid value of the type (for a
  preprepare: provided the proposal's codec itself accepts exactly its own encodings);
  in particular every proper prefix of the encoding of a valid view or subject, a
  truncated input, is rejected.
\<close>

theorem DecodeRLP_rejects_malformed_input:
  "(\<not> decode_ok (View_DecodeRLP v s) \<longrightarrow>
      (\<exists>err. snd (View_DecodeRLP v s) = Inl err) \<and> fst (View_DecodeRLP v s) = v) \<and>
   (decode_ok (View_DecodeRLP v s) \<longleftrightarrow>
      (\<exists>w enc s'. valid_View w \<and> View_EncodeRLP w = Inr enc \<and> s = enc @ s')) \<and>
   (valid_View w \<and> View_EncodeRLP w = Inr enc \<and> n < length enc \<longrightarrow>
      \<not> decode_ok (View_DecodeRLP v (take n enc))) \<and>
   (\<not> decode_ok (Subject_DecodeRLP sb ss) \<longrightarrow>
      (\<exists>err. snd (Subject_DecodeRLP sb ss) = Inl err) \<and> fst (Subject_DecodeRLP sb ss) = sb) \<and>
   (decode_ok (Subject_DecodeRLP sb ss) \<longleftrightarrow>
      (\<exists>w enc s'. valid_Subject w \<and> Subject_EncodeRLP w = Inr enc \<and> ss = enc @ s')) \<and>
   (valid_Subject sw \<and> Subject_EncodeRLP sw = Inr senc \<and> m < length senc \<longrightarrow>
      \<not> decode_ok (Subject_DecodeRLP sb (take m senc))) \<and>
   (\<not> decode_ok (Preprepare_DecodeRLP Block_DecodeRLP pp ps) \<longrightarrow>
      (\<exists>err. snd (Preprepare_DecodeRLP Block_DecodeRLP pp ps) = Inl err) \<and>
      fst (Preprepare_DecodeRLP Block_DecodeRLP pp ps) = pp) \<and>
   (block_codec_sound Block_EncodeRLP Block_DecodeRLP \<and>
    (\<forall>p. block_codec_complete Block_EncodeRLP Block_DecodeRLP p) \<longrightarrow>
      (decode_ok (Preprepare_DecodeRLP Block_DecodeRLP pp ps) \<longleftrightarrow>
         (\<exists>w enc s'. valid_Preprepare Block_EncodeRLP w \<and>
            Preprepare_EncodeRLP Block_EncodeRLP w = Inr enc \<and> ps = enc @ s')))"
proof -
  have err: "\<not> decode_ok r \<Longrightarrow> \<exists>e. snd r = Inl e" for r :: "'r \<times> (decode_error + byte list)"
    by (auto simp: decode_ok_def split: sum.splits)
  show ?thesis
    using err [of "View_DecodeRLP v s"] err [of "Subject_DecodeRLP sb ss"]
      err [of "Preprepare_DecodeRLP Block_DecodeRLP pp ps"]
      View_DecodeRLP_error_keeps_receiver [of v s]
      Subject_DecodeRLP_error_keeps_receiver [of sb ss]
      Preprepare_DecodeRLP_error_keeps_receiver [of Block_DecodeRLP pp ps]
      View_decode_ok_iff [of v s] Subject_decode_ok_iff [of sb ss]
      Preprepare_decode_ok_iff [of Block_EncodeRLP Block_DecodeRLP pp ps]
      View_truncated [of w enc n v] Subject_truncated [of sw senc m sb]
    by blast
qed

theorem DecodeRLP_rejects_malformed_input_witness:
  "View_DecodeRLP example_View [0xC4, 0x01, 0x82, 0x01] = (example_View, Inl InputTooShort) \<and>
   View_DecodeRLP example_View [0xC2, 0x00, 0x01] = (example_View, Inl ErrCanonInt) \<and>
   View_DecodeRLP example_View [0xC3, 0x01, 0x02, 0x03] = (example_View, Inl TooManyElements) \<and>
   View_DecodeRLP example_View [0xC1, 0x01] = (example_View, Inl TooFewElements) \<and>
   fst (View_DecodeRLP example_View [0xC4, 0x01, 0x82, 0x01]) = example_View \<and>
   \<not> decode_ok (View_DecodeRLP example_View (take 4 [0xC4, 0x01, 0x82, 0x01, 0x2C])) \<and>
   decode_ok (View_DecodeRLP example_View [0xC2, 0x05, 0x06, 0xFF]) \<and>
   (\<exists>w enc s'. valid_View w \<and> View_EncodeRLP w = Inr enc \<and>
      [0xC2, 0x05, 0x06, 0xFF] = enc @ s') \<and>
   Subject_DecodeRLP example_Subject [0xC6, 0xC4, 0x01, 0x82, 0x01, 0x2C, 0x07] =
     (example_Subject, Inl InputStringTooShort) \<and>
   Preprepare_DecodeRLP flag_DecodeRLP example_Preprepare [0xC6, 0xC4, 0x01, 0x82, 0x01, 0x2C, 0xC1] =
     (example_Preprepare, Inl InputTooShort) \<and>
   block_codec_sound flag_EncodeRLP flag_DecodeRLP"
proof -
  have bad: "View_DecodeRLP example_View [0xC4, 0x01, 0x82, 0x01] =
      (example_View, Inl InputTooShort)"
    "View_DecodeRLP example_View [0xC2, 0x00, 0x01] = (example_View, Inl ErrCanonInt)"
    "View_DecodeRLP example_View [0xC3, 0x01, 0x02, 0x03] = (example_View, Inl TooManyElements)"
    "View_DecodeRLP example_View [0xC1, 0x01] = (example_View, Inl TooFewElements)"
    "Subject_DecodeRLP example_Subject [0xC6, 0xC4, 0x01, 0x82, 0x01, 0x2C, 0x07] =
       (example_Subject, Inl InputStringTooShort)"
    "Preprepare_DecodeRLP flag_DecodeRLP example_Preprepare
       [0xC6, 0xC4, 0x01, 0x82, 0x01, 0x2C, 0xC1] = (example_Preprepare, Inl InputTooShort)"
    by (simp_all add: decode_eval)
  have good: "decode_ok (View_DecodeRLP example_View [0xC2, 0x05, 0x06, 0xFF])"
    by (simp add: decode_eval)
  have ev: "View_EncodeRLP example_View = Inr [0xC4, 0x01, 0x82, 0x01, 0x2C]"
    using example_View_bytes by (simp add: View_EncodeRLP_valid [OF example_View_valid])
  note inst = DecodeRLP_rejects_malformed_input
    [of example_View _ example_View "[0xC4, 0x01, 0x82, 0x01, 0x2C]" 4
        example_Subject "[]" example_Subject "[]" 0 flag_DecodeRLP example_Preprepare "[]"
        flag_EncodeRLP]
  from inst [of "[0xC2, 0x05, 0x06, 0xFF]"] good
  have ex: "\<exists>w enc s'. valid_View w \<and> View_EncodeRLP w = Inr enc \<and>
      [0xC2, 0x05, 0x06, 0xFF] = enc @ s'"
    by blast
  have pre: "valid_View example_View \<and>
      View_EncodeRLP example_View = Inr [0xC4, 0x01, 0x82, 0x01, 0x2C] \<and>
      4 < length [0xC4, 0x01, 0x82, 0x01, 0x2C :: byte]"
    using example_View_valid ev by simp
  have trunc: "\<not> decode_ok (View_DecodeRLP example_View (take 4 [0xC4, 0x01, 0x82, 0x01, 0x2C]))"
    by (rule inst [of "[]", THEN conjunct2, THEN conjunct2, THEN conjunct1, THEN mp, OF pre])
  from bad good ex trunc flag_codec_sound show ?thesis by simp
qed


end
